theory Spec2Isabelle
  imports Main "HOL-Library.Multiset" "HOL-Library.Finite_Map"
begin

section \<open>Python values shared by the modules\<close>

text \<open>
  Exceptions of the source are values: a function that can raise returns
  \<open>error + 'a\<close>, with \<open>Inl\<close> carrying the exception.
\<close>

datatype error = IndexError | KeyError | AttributeError | RecursionError

text \<open>
  \<open>xs[i]\<close> of a Python list: an index in \<open>[0, len)\<close> reads from the front, an index
  in \<open>[-len, 0)\<close> reads from the back, anything else raises IndexError.
\<close>

definition getitem :: "'a list \<Rightarrow> int \<Rightarrow> error + 'a" where
  "getitem xs i =
     (if 0 \<le> i \<and> i < int (length xs) then Inr (xs ! nat i)
      else if i < 0 \<and> - int (length xs) \<le> i then Inr (xs ! nat (int (length xs) + i))
      else Inl IndexError)"

text \<open>\<open>m[i][j]\<close> of a list of lists.\<close>

definition getitem2 :: "'a list list \<Rightarrow> int \<Rightarrow> int \<Rightarrow> error + 'a" where
  "getitem2 m i j = (case getitem m i of Inl e \<Rightarrow> Inl e | Inr row \<Rightarrow> getitem row j)"

text \<open>\<open>xs[:k]\<close>: a negative stop counts from the end and is clipped at 0.\<close>

definition slice_to :: "'a list \<Rightarrow> int \<Rightarrow> 'a list" where
  "slice_to xs k =
     (if 0 \<le> k then take (nat k) xs else take (nat (int (length xs) + k)) xs)"

section \<open>sliding\_window.py\<close>

text \<open>
  The body of \<open>for i in range(k, len(arr))\<close> in \<open>max_sum_subarray\<close>, run over the
  list of the remaining values of \<open>i\<close>.
\<close>

fun max_sum_slide :: "int list \<Rightarrow> int \<Rightarrow> int list \<Rightarrow> int \<Rightarrow> int \<Rightarrow> error + int" where
  "max_sum_slide arr k [] window_sum max_sum = Inr max_sum"
| "max_sum_slide arr k (i # rest) window_sum max_sum =
     (case getitem arr i of
        Inl e \<Rightarrow> Inl e
      | Inr a \<Rightarrow>
          (case getitem arr (i - k) of
             Inl e \<Rightarrow> Inl e
           | Inr b \<Rightarrow>
               (let window_sum' = window_sum + (a - b)
                in max_sum_slide arr k rest window_sum' (max max_sum window_sum'))))"

definition max_sum_subarray :: "int list \<Rightarrow> int \<Rightarrow> error + int" where
  "max_sum_subarray arr k =
     (if int (length arr) < k then Inr (- 1)
      else (let window_sum = sum_list (slice_to arr k)
            in max_sum_slide arr k [k .. int (length arr) - 1] window_sum window_sum))"

section \<open>binary\_search.py\<close>

subsection \<open>BasicBinarySearch\<close>

function binary_search_loop :: "int list \<Rightarrow> int \<Rightarrow> int \<Rightarrow> int \<Rightarrow> error + int" where
  "binary_search_loop arr target left right =
     (if left \<le> right then
        (let mid = left + (right - left) div 2 in
         case getitem arr mid of
           Inl e \<Rightarrow> Inl e
         | Inr x \<Rightarrow>
             if x = target then Inr mid
             else if x < target then binary_search_loop arr target (mid + 1) right
             else binary_search_loop arr target left (mid - 1))
      else Inr (- 1))"
  by pat_completeness auto
termination
  by (relation "measure (\<lambda>(arr, target, left, right). nat (right - left + 1))") auto

definition binary_search :: "int list \<Rightarrow> int \<Rightarrow> error + int" where
  "binary_search arr target = binary_search_loop arr target 0 (int (length arr) - 1)"

function find_first_loop :: "int list \<Rightarrow> int \<Rightarrow> int \<Rightarrow> int \<Rightarrow> int \<Rightarrow> error + int" where
  "find_first_loop arr target left right result =
     (if left \<le> right then
        (let mid = left + (right - left) div 2 in
         case getitem arr mid of
           Inl e \<Rightarrow> Inl e
         | Inr x \<Rightarrow>
             if x = target then find_first_loop arr target left (mid - 1) mid
             else if x < target then find_first_loop arr target (mid + 1) right result
             else find_first_loop arr target left (mid - 1) result)
      else Inr result)"
  by pat_completeness auto
termination
  by (relation "measure (\<lambda>(arr, target, left, right, result). nat (right - left + 1))") auto

definition find_first_occurrence :: "int list \<Rightarrow> int \<Rightarrow> error + int" where
  "find_first_occurrence arr target =
     find_first_loop arr target 0 (int (length arr) - 1) (- 1)"

function find_last_loop :: "int list \<Rightarrow> int \<Rightarrow> int \<Rightarrow> int \<Rightarrow> int \<Rightarrow> error + int" where
  "find_last_loop arr target left right result =
     (if left \<le> right then
        (let mid = left + (right - left) div 2 in
         case getitem arr mid of
           Inl e \<Rightarrow> Inl e
         | Inr x \<Rightarrow>
             if x = target then find_last_loop arr target (mid + 1) right mid
             else if x < target then find_last_loop arr target (mid + 1) right result
             else find_last_loop arr target left (mid - 1) result)
      else Inr result)"
  by pat_completeness auto
termination
  by (relation "measure (\<lambda>(arr, target, left, right, result). nat (right - left + 1))") auto

definition find_last_occurrence :: "int list \<Rightarrow> int \<Rightarrow> error + int" where
  "find_last_occurrence arr target =
     find_last_loop arr target 0 (int (length arr) - 1) (- 1)"

subsection \<open>BinarySearchVariations\<close>

function search_insert_loop :: "int list \<Rightarrow> int \<Rightarrow> int \<Rightarrow> int \<Rightarrow> error + int" where
  "search_insert_loop nums target left right =
     (if left < right then
        (let mid = left + (right - left) div 2 in
         case getitem nums mid of
           Inl e \<Rightarrow> Inl e
         | Inr x \<Rightarrow>
             if x < target then search_insert_loop nums target (mid + 1) right
             else search_insert_loop nums target left mid)
      else Inr left)"
  by pat_completeness auto
termination
  by (relation "measure (\<lambda>(nums, target, left, right). nat (right - left))") auto

definition search_insert_position :: "int list \<Rightarrow> int \<Rightarrow> error + int" where
  "search_insert_position nums target = search_insert_loop nums target 0 (int (length nums))"

function find_minimum_rotated_loop :: "int list \<Rightarrow> int \<Rightarrow> int \<Rightarrow> error + int" where
  "find_minimum_rotated_loop nums left right =
     (if left < right then
        (let mid = left + (right - left) div 2 in
         case getitem nums mid of
           Inl e \<Rightarrow> Inl e
         | Inr a \<Rightarrow>
             (case getitem nums right of
                Inl e \<Rightarrow> Inl e
              | Inr b \<Rightarrow>
                  if a > b then find_minimum_rotated_loop nums (mid + 1) right
                  else find_minimum_rotated_loop nums left mid))
      else Inr left)"
  by pat_completeness auto
termination
  by (relation "measure (\<lambda>(nums, left, right). nat (right - left))") auto

definition find_minimum_rotated :: "int list \<Rightarrow> error + int" where
  "find_minimum_rotated nums =
     (case find_minimum_rotated_loop nums 0 (int (length nums) - 1) of
        Inl e \<Rightarrow> Inl e
      | Inr left \<Rightarrow> getitem nums left)"

function search_2d_matrix_loop :: "int list list \<Rightarrow> int \<Rightarrow> int \<Rightarrow> int \<Rightarrow> int \<Rightarrow> error + bool" where
  "search_2d_matrix_loop matrix target cols left right =
     (if left \<le> right then
        (let mid = left + (right - left) div 2 in
         case getitem2 matrix (mid div cols) (mid mod cols) of
           Inl e \<Rightarrow> Inl e
         | Inr mid_value \<Rightarrow>
             if mid_value = target then Inr True
             else if mid_value < target then search_2d_matrix_loop matrix target cols (mid + 1) right
             else search_2d_matrix_loop matrix target cols left (mid - 1))
      else Inr False)"
  by pat_completeness auto
termination
  by (relation "measure (\<lambda>(matrix, target, cols, left, right). nat (right - left + 1))") auto

text \<open>
  The guard \<open>if not matrix or not matrix[0]\<close> comes first; \<open>matrix[0]\<close> is read only
  when \<open>matrix\<close> is non-empty.
\<close>

definition search_2d_matrix :: "int list list \<Rightarrow> int \<Rightarrow> error + bool" where
  "search_2d_matrix matrix target =
     (case matrix of
        [] \<Rightarrow> Inr False
      | row0 # _ \<Rightarrow>
          if row0 = [] then Inr False
          else (let rows = int (length matrix); cols = int (length row0)
                in search_2d_matrix_loop matrix target cols 0 (rows * cols - 1)))"

subsection \<open>PeakFinding\<close>

text \<open>
  The inner \<open>for i in range(rows)\<close> of \<open>find_peak_2d\<close>, over the remaining values
  of \<open>i\<close>, with \<open>max_row\<close> as the loop-carried variable.
\<close>

fun find_max_row :: "int list list \<Rightarrow> int \<Rightarrow> int list \<Rightarrow> int \<Rightarrow> error + int" where
  "find_max_row matrix mid_col [] max_row = Inr max_row"
| "find_max_row matrix mid_col (i # rest) max_row =
     (case getitem2 matrix i mid_col of
        Inl e \<Rightarrow> Inl e
      | Inr a \<Rightarrow>
          (case getitem2 matrix max_row mid_col of
             Inl e \<Rightarrow> Inl e
           | Inr b \<Rightarrow> find_max_row matrix mid_col rest (if a > b then i else max_row)))"

function find_peak_2d_loop ::
  "int list list \<Rightarrow> int \<Rightarrow> int \<Rightarrow> int \<Rightarrow> int \<Rightarrow> error + int list" where
  "find_peak_2d_loop matrix rows cols left right =
     (if left \<le> right then
        (let mid_col = left + (right - left) div 2 in
         case find_max_row matrix mid_col [0 .. rows - 1] 0 of
           Inl e \<Rightarrow> Inl e
         | Inr max_row \<Rightarrow>
         (case (if mid_col > 0 then getitem2 matrix max_row (mid_col - 1) else Inr (- 1)) of
           Inl e \<Rightarrow> Inl e
         | Inr left_val \<Rightarrow>
         (case (if mid_col < cols - 1 then getitem2 matrix max_row (mid_col + 1) else Inr (- 1)) of
           Inl e \<Rightarrow> Inl e
         | Inr right_val \<Rightarrow>
         (case getitem2 matrix max_row mid_col of
           Inl e \<Rightarrow> Inl e
         | Inr v \<Rightarrow>
             if v \<ge> left_val \<and> v \<ge> right_val then Inr [max_row, mid_col]
             else if left_val > v then find_peak_2d_loop matrix rows cols left (mid_col - 1)
             else find_peak_2d_loop matrix rows cols (mid_col + 1) right))))
      else Inr [- 1, - 1])"
  by pat_completeness auto
termination
  by (relation "measure (\<lambda>(matrix, rows, cols, left, right). nat (right - left + 1))") auto

definition find_peak_2d :: "int list list \<Rightarrow> error + int list" where
  "find_peak_2d matrix =
     (case getitem matrix 0 of
        Inl e \<Rightarrow> Inl e
      | Inr row0 \<Rightarrow>
          (let rows = int (length matrix); cols = int (length row0)
           in find_peak_2d_loop matrix rows cols 0 (cols - 1)))"

section \<open>In-place updates\<close>

text \<open>
  \<open>xs[i] = v\<close> with Python's index rule; the updated list is returned.
\<close>

definition setitem :: "'a list \<Rightarrow> int \<Rightarrow> 'a \<Rightarrow> error + 'a list" where
  "setitem xs i v =
     (if 0 \<le> i \<and> i < int (length xs) then Inr (xs[nat i := v])
      else if i < 0 \<and> - int (length xs) \<le> i then Inr (xs[nat (int (length xs) + i) := v])
      else Inl IndexError)"


text \<open>
  The tuple assignment \<open>xs[i], xs[j] = xs[j], xs[i]\<close>: the right-hand side is
  evaluated first (\<open>xs[j]\<close>, then \<open>xs[i]\<close>), then \<open>xs[i]\<close> and \<open>xs[j]\<close> are assigned in
  that order.
\<close>

definition swap_items :: "'a list \<Rightarrow> int \<Rightarrow> int \<Rightarrow> error + 'a list" where
  "swap_items xs i j =
     (case getitem xs j of
        Inl e \<Rightarrow> Inl e
      | Inr a \<Rightarrow>
          (case getitem xs i of
             Inl e \<Rightarrow> Inl e
           | Inr b \<Rightarrow>
               (case setitem xs i a of
                  Inl e \<Rightarrow> Inl e
                | Inr xs' \<Rightarrow> setitem xs' j b)))"

section \<open>two\_pointers.py\<close>

text \<open>
  \<open>sort_colors\<close> returns nothing and sorts \<open>nums\<close> in place; the model returns the
  final contents of \<open>nums\<close>.
\<close>

function sort_colors_loop :: "int list \<Rightarrow> int \<Rightarrow> int \<Rightarrow> int \<Rightarrow> error + int list" where
  "sort_colors_loop nums left right current =
     (if current \<le> right then
        (case getitem nums current of
           Inl e \<Rightarrow> Inl e
         | Inr c \<Rightarrow>
             if c = 0 then
               (case swap_items nums left current of
                  Inl e \<Rightarrow> Inl e
                | Inr nums' \<Rightarrow> sort_colors_loop nums' (left + 1) right (current + 1))
             else if c = 2 then
               (case swap_items nums current right of
                  Inl e \<Rightarrow> Inl e
                | Inr nums' \<Rightarrow> sort_colors_loop nums' left (right - 1) current)
             else sort_colors_loop nums left right (current + 1))
      else Inr nums)"
  by pat_completeness auto
termination
  by (relation "measure (\<lambda>(nums, left, right, current). nat (right - current + 1))") auto

definition sort_colors :: "int list \<Rightarrow> error + int list" where
  "sort_colors nums = sort_colors_loop nums 0 (int (length nums) - 1) 0"

section \<open>merge\_intervals.py\<close>

text \<open>
  An interval \<open>[start, end]\<close> is a pair. \<open>merged\<close> starts as a one-element list and
  only grows, so \<open>merged[-1]\<close> is \<open>last merged\<close>; the assignment
  \<open>last_merged[1] = max(...)\<close> replaces the end of that last element. The sorted
  list is non-empty whenever \<open>intervals\<close> is, so \<open>intervals[0]\<close> and
  \<open>intervals[1:]\<close> are its head and tail.
\<close>

type_synonym interval = "int \<times> int"

fun merge_loop :: "interval list \<Rightarrow> interval list \<Rightarrow> interval list" where
  "merge_loop merged [] = merged"
| "merge_loop merged (current # rest) =
     (let last_merged = last merged in
      if fst current \<le> snd last_merged
      then merge_loop
             (butlast merged @ [(fst last_merged, max (snd last_merged) (snd current))]) rest
      else merge_loop (merged @ [current]) rest)"

text \<open>
  \<open>intervals.sort(key=lambda x: x[0])\<close> is a stable sort on the start, as
  \<open>sort_key fst\<close> is.
\<close>

definition merge_intervals :: "interval list \<Rightarrow> interval list" where
  "merge_intervals intervals =
     (if intervals = [] then []
      else (let sorted_intervals = sort_key fst intervals
            in merge_loop [hd sorted_intervals] (tl sorted_intervals)))"

text \<open>
  In a merged list, each interval ends strictly before the next one starts.
\<close>

definition gap :: "interval \<Rightarrow> interval \<Rightarrow> bool" where
  "gap a b = (snd a < fst b)"

text \<open>
  The two-pointer sweep of \<open>min_meeting_rooms\<close>. The pointers start at 0 and only
  count up, so they are naturals; \<open>rooms_needed\<close> can go below zero and is an integer.
\<close>

function min_meeting_rooms_loop ::
  "int list \<Rightarrow> int list \<Rightarrow> nat \<Rightarrow> nat \<Rightarrow> nat \<Rightarrow> int \<Rightarrow> int \<Rightarrow> error + int" where
  "min_meeting_rooms_loop starts ends n start_ptr end_ptr rooms_needed max_rooms =
     (if start_ptr < n then
        (case getitem starts (int start_ptr) of
           Inl err \<Rightarrow> Inl err
         | Inr s \<Rightarrow>
             (case getitem ends (int end_ptr) of
                Inl err \<Rightarrow> Inl err
              | Inr e \<Rightarrow>
                  if s < e then
                    min_meeting_rooms_loop starts ends n (start_ptr + 1) end_ptr
                      (rooms_needed + 1) (max max_rooms (rooms_needed + 1))
                  else
                    min_meeting_rooms_loop starts ends n start_ptr (end_ptr + 1)
                      (rooms_needed - 1) max_rooms))
      else Inr max_rooms)"
  by pat_completeness auto
termination
  by (relation "measure (\<lambda>(starts, ends, n, start_ptr, end_ptr, rooms_needed, max_rooms).
        (n - start_ptr) + (length ends - end_ptr))")
     (auto simp: getitem_def split: if_splits)

definition min_meeting_rooms :: "interval list \<Rightarrow> error + int" where
  "min_meeting_rooms intervals =
     (if intervals = [] then Inr 0
      else (let starts = sort (map fst intervals);
                ends = sort (map snd intervals)
            in min_meeting_rooms_loop starts ends (length intervals) 0 0 0 0))"

text \<open>
  The number of meetings in progress at time \<open>t\<close>, a meeting \<open>[s, e]\<close> being in
  progress from \<open>s\<close> up to, but not at, \<open>e\<close>.
\<close>

definition occupancy :: "interval list \<Rightarrow> int \<Rightarrow> int" where
  "occupancy intervals t = int (length (filter (\<lambda>(s, e). s \<le> t \<and> t < e) intervals))"

text \<open>How many values of a list are at most \<open>t\<close>.\<close>

definition count_upto :: "int list \<Rightarrow> int \<Rightarrow> nat" where
  "count_upto ys t = length (filter (\<lambda>y. y \<le> t) ys)"

section \<open>subsets\_backtracking.py\<close>







section \<open>fast\_slow\_pointers.py\<close>

text \<open>
  A \<open>ListNode\<close> object lives at an address; a reference is an address or \<open>None\<close>.
  The heap gives the fields of the object at each address. The class defines no
  \<open>__eq__\<close>, so \<open>==\<close> on nodes compares addresses, and a node is always truthy.
\<close>

record ListNode =
  val :: int
  nxt :: "nat option"

type_synonym heap = "nat \<Rightarrow> ListNode"

text \<open>\<open>p.next\<close>: AttributeError when \<open>p\<close> is \<open>None\<close>.\<close>

definition get_next :: "heap \<Rightarrow> nat option \<Rightarrow> error + nat option" where
  "get_next h p = (case p of None \<Rightarrow> Inl AttributeError | Some a \<Rightarrow> Inr (nxt (h a)))"

text \<open>
  The loop of \<open>has_cycle\<close>. It runs forever on no input the theorems below cover, but
  nothing in its text bounds it, so it is a partial function: not returning is \<open>None\<close>.
\<close>

partial_function (option) has_cycle_loop ::
  "heap \<Rightarrow> nat option \<Rightarrow> nat option \<Rightarrow> (error + bool) option" where
  "has_cycle_loop h slow fast =
     (case fast of
        None \<Rightarrow> Some (Inr False)
      | Some f \<Rightarrow>
          (case nxt (h f) of
             None \<Rightarrow> Some (Inr False)
           | Some fn \<Rightarrow>
               (case get_next h slow of
                  Inl e \<Rightarrow> Some (Inl e)
                | Inr slow' \<Rightarrow>
                    (let fast' = nxt (h fn)
                     in if slow' = fast' then Some (Inr True)
                        else has_cycle_loop h slow' fast'))))"

definition has_cycle :: "heap \<Rightarrow> nat option \<Rightarrow> (error + bool) option" where
  "has_cycle h head =
     (case head of
        None \<Rightarrow> Some (Inr False)
      | Some a \<Rightarrow>
          (case nxt (h a) of
             None \<Rightarrow> Some (Inr False)
           | Some _ \<Rightarrow> has_cycle_loop h head head))"

text \<open>
  The first loop of \<open>find_cycle_start\<close> ends either by \<open>break\<close>, with \<open>slow\<close> at the
  meeting point, or by its condition, which runs the \<open>else\<close> clause.
\<close>

datatype meeting = Broke "nat option" | Exhausted

partial_function (option) find_meeting_loop ::
  "heap \<Rightarrow> nat option \<Rightarrow> nat option \<Rightarrow> (error + meeting) option" where
  "find_meeting_loop h slow fast =
     (case fast of
        None \<Rightarrow> Some (Inr Exhausted)
      | Some f \<Rightarrow>
          (case nxt (h f) of
             None \<Rightarrow> Some (Inr Exhausted)
           | Some fn \<Rightarrow>
               (case get_next h slow of
                  Inl e \<Rightarrow> Some (Inl e)
                | Inr slow' \<Rightarrow>
                    (let fast' = nxt (h fn)
                     in if slow' = fast' then Some (Inr (Broke slow'))
                        else find_meeting_loop h slow' fast'))))"

text \<open>The second loop: \<open>while current != slow\<close>.\<close>

partial_function (option) find_start_loop ::
  "heap \<Rightarrow> nat option \<Rightarrow> nat option \<Rightarrow> (error + nat option) option" where
  "find_start_loop h current slow =
     (if current \<noteq> slow then
        (case get_next h current of
           Inl e \<Rightarrow> Some (Inl e)
         | Inr current' \<Rightarrow>
             (case get_next h slow of
                Inl e \<Rightarrow> Some (Inl e)
              | Inr slow' \<Rightarrow> find_start_loop h current' slow'))
      else Some (Inr current))"

definition find_cycle_start :: "heap \<Rightarrow> nat option \<Rightarrow> (error + nat option) option" where
  "find_cycle_start h head =
     (case head of
        None \<Rightarrow> Some (Inr None)
      | Some a \<Rightarrow>
          (case nxt (h a) of
             None \<Rightarrow> Some (Inr None)
           | Some _ \<Rightarrow>
               (case find_meeting_loop h head head of
                  None \<Rightarrow> None
                | Some (Inl e) \<Rightarrow> Some (Inl e)
                | Some (Inr Exhausted) \<Rightarrow> Some (Inr None)
                | Some (Inr (Broke slow)) \<Rightarrow> find_start_loop h head slow)))"

text \<open>
  The chain as a sequence: \<open>node_at h head n\<close> is the reference reached from \<open>head\<close>
  after \<open>n\<close> steps along \<open>next\<close>, and \<open>None\<close> from the end of the chain on.
\<close>

fun node_at :: "heap \<Rightarrow> nat option \<Rightarrow> nat \<Rightarrow> nat option" where
  "node_at h p 0 = p"
| "node_at h p (Suc n) = (case node_at h p n of None \<Rightarrow> None | Some a \<Rightarrow> nxt (h a))"

text \<open>
  The position in \<open>[0, m + l)\<close> that stands for position \<open>n\<close> of a chain with a tail
  of \<open>m\<close> nodes followed by a cycle of \<open>l\<close> nodes.
\<close>

definition canon :: "nat \<Rightarrow> nat \<Rightarrow> nat \<Rightarrow> nat" where
  "canon m l n = (if n < m then n else m + (n - m) mod l)"

text \<open>
  The chain from \<open>head\<close> has a cycle: \<open>m\<close> nodes lead to a cycle of \<open>l\<close> nodes.
  The first \<open>m + l\<close> positions hold pairwise different nodes, and the node after the
  last of them is the node at position \<open>m\<close>, the first node of the cycle in traversal
  order.
\<close>

definition lasso :: "heap \<Rightarrow> nat option \<Rightarrow> nat \<Rightarrow> nat \<Rightarrow> bool" where
  "lasso h head m l =
     (0 < l \<and> (\<forall>i < m + l. node_at h head i \<noteq> None) \<and>
      distinct (map (node_at h head) [0 ..< m + l]) \<and>
      node_at h head (m + l) = node_at h head m)"

text \<open>
  The two lists of \<open>test_has_cycle\<close>, with the nodes at addresses 1, 2 and 3:
  \<open>1 -> 2 -> 3 -> 2\<close> and \<open>1 -> 2 -> 3 -> None\<close>.
\<close>

definition test_heap_cycle :: heap where
  "test_heap_cycle = (\<lambda>a.
     if a = 1 then \<lparr>val = 1, nxt = Some 2\<rparr>
     else if a = 2 then \<lparr>val = 2, nxt = Some 3\<rparr>
     else \<lparr>val = 3, nxt = Some 2\<rparr>)"

definition test_heap_no_cycle :: heap where
  "test_heap_no_cycle = (\<lambda>a.
     if a = 1 then \<lparr>val = 1, nxt = Some 2\<rparr>
     else if a = 2 then \<lparr>val = 2, nxt = Some 3\<rparr>
     else \<lparr>val = 3, nxt = None\<rparr>)"

section \<open>graph\_traversal.py\<close>

text \<open>
  A graph is a dict from a vertex to the list of its neighbours: a finite map.
  \<open>graph[v]\<close> raises KeyError when \<open>v\<close> is not a key.
\<close>

type_synonym graph = "(int, int list) fmap"

text \<open>
  \<open>dfs_recursive\<close> shares one \<open>visited\<close> set among all its recursive calls, so the
  set is passed in and returned with the result. \<open>dfs_neighbors\<close> is the \<open>for\<close> loop
  over \<open>graph[start]\<close>, with \<open>result\<close> as built so far.

  Every call of \<open>dfs_recursive\<close> takes a frame of the interpreter's call stack, and the
  call that would pass the recursion limit raises RecursionError instead of running; no
  call catches it, so it leaves the outermost call. \<open>frames\<close> is the number of nested
  calls of \<open>dfs_recursive\<close> still allowed when the function is entered: the limit less
  the depth of the caller, and less what the built-in calls of the body need. The limit
  is the interpreter's and not the module's, so it is a parameter.
\<close>

fun dfs_recursive_from :: "nat \<Rightarrow> graph \<Rightarrow> int \<Rightarrow> int set \<Rightarrow> error + (int list \<times> int set)"
  and dfs_neighbors :: "nat \<Rightarrow> graph \<Rightarrow> int list \<Rightarrow> int set \<Rightarrow> int list \<Rightarrow> error + (int list \<times> int set)" where
  "dfs_recursive_from 0 graph start visited = Inl RecursionError"
| "dfs_recursive_from (Suc frames) graph start visited =
     (case fmlookup graph start of
        None \<Rightarrow> Inl KeyError
      | Some neighbors \<Rightarrow> dfs_neighbors frames graph neighbors (insert start visited) [start])"
| "dfs_neighbors frames graph [] visited result = Inr (result, visited)"
| "dfs_neighbors frames graph (neighbor # rest) visited result =
     (if neighbor \<notin> visited then
        (case dfs_recursive_from frames graph neighbor visited of
           Inl e \<Rightarrow> Inl e
         | Inr (sub, visited') \<Rightarrow> dfs_neighbors frames graph rest visited' (result @ sub))
      else dfs_neighbors frames graph rest visited result)"

definition dfs_recursive :: "nat \<Rightarrow> graph \<Rightarrow> int \<Rightarrow> error + int list" where
  "dfs_recursive frames graph start =
     (case dfs_recursive_from frames graph start {} of
        Inl e \<Rightarrow> Inl e
      | Inr (result, visited) \<Rightarrow> Inr result)"

text \<open>
  The \<open>for\<close> loop of \<open>dfs_iterative\<close>, over the remaining neighbours of the reversed
  list. The stack is a Python list: \<open>append\<close> adds at the end and \<open>pop\<close> takes the
  last element.
\<close>

fun push_unvisited :: "int list \<Rightarrow> int set \<Rightarrow> int list \<Rightarrow> int list" where
  "push_unvisited [] visited stack = stack"
| "push_unvisited (neighbor # rest) visited stack =
     (if neighbor \<notin> visited then push_unvisited rest visited (stack @ [neighbor])
      else push_unvisited rest visited stack)"

text \<open>
  The \<open>while\<close> loop of \<open>dfs_iterative\<close> makes no nested calls, so no recursion limit
  applies to it. It ends because \<open>visited\<close> grows inside the finite key set of the
  graph, or else the stack shrinks.
\<close>

function dfs_iterative_loop :: "graph \<Rightarrow> int list \<Rightarrow> int set \<Rightarrow> int list \<Rightarrow> error + int list" where
  "dfs_iterative_loop graph stack visited result =
     (if stack \<noteq> [] then
        (let vertex = last stack; stack' = butlast stack in
         if vertex \<notin> visited then
           (case fmlookup graph vertex of
              None \<Rightarrow> Inl KeyError
            | Some neighbors \<Rightarrow>
                dfs_iterative_loop graph
                  (push_unvisited (rev neighbors) (insert vertex visited) stack')
                  (insert vertex visited) (result @ [vertex]))
         else dfs_iterative_loop graph stack' visited result)
      else Inr result)"
  by pat_completeness auto
termination
proof (relation "inv_image (less_than <*lex*> less_than)
    (\<lambda>(graph, stack, visited, result). (card (fmdom' graph - visited), length stack))",
    goal_cases)
  case 1
  show ?case by (intro wf_inv_image wf_lex_prod wf_less_than)
next
  case (2 graph stack visited result vertex stack' neighbors)
  then have "last stack \<in> fmdom' graph - visited" by (simp add: fmdom'I)
  then have "fmdom' graph - insert (last stack) visited \<subset> fmdom' graph - visited"
    by auto
  then have "card (fmdom' graph - insert (last stack) visited) < card (fmdom' graph - visited)"
    by (intro psubset_card_mono) simp_all
  then show ?case using 2 by simp
next
  case (3 graph stack visited result vertex stack')
  then show ?case by simp
qed

definition dfs_iterative :: "graph \<Rightarrow> int \<Rightarrow> error + int list" where
  "dfs_iterative graph start = dfs_iterative_loop graph [start] {} []"

text \<open>The vertices that can be reached from \<open>start\<close> along edges of the graph.\<close>

inductive_set reachable :: "graph \<Rightarrow> int \<Rightarrow> int set" for graph :: graph and start :: int where
  reachable_start: "start \<in> reachable graph start"
| reachable_step: "v \<in> reachable graph start \<Longrightarrow> fmlookup graph v = Some ns \<Longrightarrow> n \<in> set ns \<Longrightarrow>
     n \<in> reachable graph start"

text \<open>The graph printed by the module's example run.\<close>

definition example_graph :: graph where
  "example_graph = fmap_of_list
      [(0, [1, 2]), (1, [0, 3, 4]), (2, [0, 5, 6]), (3, [1]), (4, [1]), (5, [2]), (6, [2])]"

text \<open>
  The path \<open>0 -> 1 -> ... -> n - 1\<close>: every vertex is a key, and the last one has no
  neighbour.
\<close>

definition path_graph :: "nat \<Rightarrow> graph" where
  "path_graph n =
     fmap_of_list (map (\<lambda>i. (int i, if Suc i < n then [int (Suc i)] else [])) [0 ..< n])"

section \<open>Properties of sliding\_window.py\<close>

text \<open>
  C10. When the array is shorter than the window, \<open>max_sum_subarray\<close> returns -1 and
  does not raise. The same value -1 is also a genuine answer: it is the maximum window
  sum of the one-element array \<open>[-1]\<close> with \<open>k = 1\<close>, so the sentinel cannot be told
  apart from a result.
\<close>

theorem max_sum_subarray_short_sentinel:
  "(int (length arr) < k \<longrightarrow> max_sum_subarray arr k = Inr (- 1)) \<and>
   (\<not> int (length [- 1 :: int]) < 1 \<and> max_sum_subarray [- 1] 1 = Inr (- 1))"
  by (simp add: max_sum_subarray_def slice_to_def)

theorem max_sum_subarray_short_sentinel_witness:
  "int (length [1, 2 :: int]) < 3 \<and> max_sum_subarray [1, 2] 3 = Inr (- 1)"
proof -
  have h: "int (length [1, 2 :: int]) < 3" by simp
  show ?thesis using h max_sum_subarray_short_sentinel [of "[1, 2]" 3] by simp
qed

section \<open>Properties of binary\_search.py\<close>

lemma getitem_in: "0 \<le> i \<Longrightarrow> i < int (length xs) \<Longrightarrow> getitem xs i = Inr (xs ! nat i)"
  by (simp add: getitem_def)

subsection \<open>Empty input\<close>

text \<open>
  C2. The claim is that every function of the family returns a sentinel on empty input
  and never raises. \<open>find_minimum_rotated\<close> skips its loop on the empty list and then
  reads \<open>nums[0]\<close>; \<open>find_peak_2d\<close> reads \<open>matrix[0]\<close> before anything else. Both
  raise IndexError. The sibling \<open>search_2d_matrix\<close> guards the same read and returns
  False, and \<open>binary_search\<close> returns -1.
\<close>

theorem empty_input_raises:
  "find_minimum_rotated [] = Inl IndexError \<and> find_peak_2d [] = Inl IndexError \<and>
   search_2d_matrix [] target = Inr False \<and> search_2d_matrix [[]] target = Inr False \<and>
   binary_search [] target = Inr (- 1) \<and> find_peak_2d [[]] = Inr [- 1, - 1]"
  by (simp add: find_minimum_rotated_def find_peak_2d_def search_2d_matrix_def
      binary_search_def getitem_def)

subsection \<open>Insert position\<close>

lemma search_insert_loop_correct:
  assumes "sorted nums" "0 \<le> left" "left \<le> right" "right \<le> int (length nums)"
   "\<forall>i < nat left. nums ! i < target"
   "\<forall>i. nat right \<le> i \<and> i < length nums \<longrightarrow> target \<le> nums ! i"
  shows "\<exists>k. search_insert_loop nums target left right = Inr (int k) \<and> k \<le> length nums \<and>
     (\<forall>i < k. nums ! i < target) \<and> (\<forall>i. k \<le> i \<and> i < length nums \<longrightarrow> target \<le> nums ! i)"
  using assms
proof (induction nums target left right rule: search_insert_loop.induct)
  case (1 nums target left right)
  note srt = "1.prems"(1) and l0 = "1.prems"(2) and lr = "1.prems"(3) and rlen = "1.prems"(4)
    and low = "1.prems"(5) and hi = "1.prems"(6)
  let ?goal = "\<lambda>l r. \<exists>k. search_insert_loop nums target l r = Inr (int k) \<and> k \<le> length nums \<and>
     (\<forall>i < k. nums ! i < target) \<and> (\<forall>i. k \<le> i \<and> i < length nums \<longrightarrow> target \<le> nums ! i)"
  show ?case
  proof (cases "left < right")
    case False
    with lr have "left = right" by simp
    with l0 rlen low hi False show ?thesis
      by (subst search_insert_loop.simps) (auto intro!: exI[of _ "nat right"])
  next
    case True
    define mid where "mid = left + (right - left) div 2"
    have mid: "left \<le> mid" "mid < right" using True by (auto simp: mid_def)
    then have g: "getitem nums mid = Inr (nums ! nat mid)"
      using l0 rlen by (intro getitem_in) auto
    have ml: "nat mid < length nums" using mid l0 rlen by linarith
    show ?thesis
    proof (cases "nums ! nat mid < target")
      case lt: True
      have low': "\<forall>i < nat (mid + 1). nums ! i < target"
      proof (intro allI impI)
        fix i assume "i < nat (mid + 1)"
        then have "i \<le> nat mid" using mid l0 by linarith
        then have "nums ! i \<le> nums ! nat mid"
          using srt ml by (simp add: sorted_nth_mono)
        with lt show "nums ! i < target" by simp
      qed
      have "?goal (mid + 1) right"
        using "1.IH"(1)[OF True mid_def g lt srt _ _ rlen low' hi] mid l0 by simp
      then show ?thesis
        using True g lt by (subst search_insert_loop.simps) (simp add: mid_def[symmetric])
    next
      case ge: False
      have hi': "\<forall>i. nat mid \<le> i \<and> i < length nums \<longrightarrow> target \<le> nums ! i"
      proof (intro allI impI)
        fix i assume "nat mid \<le> i \<and> i < length nums"
        then have "nums ! nat mid \<le> nums ! i"
          using srt by (simp add: sorted_nth_mono)
        with ge show "target \<le> nums ! i" by simp
      qed
      have "?goal left mid"
        using "1.IH"(2)[OF True mid_def g ge srt l0 _ _ low hi'] mid rlen by simp
      then show ?thesis
        using True g ge by (subst search_insert_loop.simps) (simp add: mid_def[symmetric])
    qed
  qed
qed

text \<open>
  C7. On a sorted list \<open>S\<close>, \<open>search_insert_position\<close> returns an index \<open>k\<close> with every
  element of \<open>S[0..k)\<close> strictly below \<open>v\<close> and every element of \<open>S[k..)\<close> at least
  \<open>v\<close>: the leftmost insertion index.
\<close>

theorem search_insert_position_leftmost:
  assumes "sorted S"
  shows "\<exists>k. search_insert_position S v = Inr (int k) \<and> k \<le> length S \<and>
           (\<forall>x \<in> set (take k S). x < v) \<and> (\<forall>x \<in> set (drop k S). v \<le> x)"
proof -
  have "\<exists>k. search_insert_loop S v 0 (int (length S)) = Inr (int k) \<and> k \<le> length S \<and>
     (\<forall>i < k. S ! i < v) \<and> (\<forall>i. k \<le> i \<and> i < length S \<longrightarrow> v \<le> S ! i)"
    using assms by (intro search_insert_loop_correct) auto
  then obtain k where k: "search_insert_position S v = Inr (int k)" "k \<le> length S"
    "\<forall>i < k. S ! i < v" "\<forall>i. k \<le> i \<and> i < length S \<longrightarrow> v \<le> S ! i"
    unfolding search_insert_position_def by blast
  have "\<forall>x \<in> set (take k S). x < v"
    using k(2,3) by (auto simp: in_set_conv_nth)
  moreover have "\<forall>x \<in> set (drop k S). v \<le> x"
    using k(2,4) by (auto simp: in_set_conv_nth)
  ultimately show ?thesis using k(1,2) by blast
qed

theorem search_insert_position_leftmost_witness:
  "sorted [1, 3, 5, 6 :: int] \<and>
   (\<exists>k. search_insert_position [1, 3, 5, 6] 2 = Inr (int k) \<and> k \<le> length [1, 3, 5, 6 :: int] \<and>
        (\<forall>x \<in> set (take k [1, 3, 5, 6 :: int]). x < 2) \<and>
        (\<forall>x \<in> set (drop k [1, 3, 5, 6 :: int]). 2 \<le> x))"
proof -
  have h: "sorted [1, 3, 5, 6 :: int]" by simp
  show ?thesis using h search_insert_position_leftmost [OF h, of 2] by simp
qed

subsection \<open>Exact, first and last occurrence\<close>

lemma binary_search_loop_finds:
  assumes "sorted arr" "0 \<le> left" "right < int (length arr)"
    "\<exists>j. left \<le> int j \<and> int j \<le> right \<and> arr ! j = target"
  shows "\<exists>i. binary_search_loop arr target left right = Inr (int i) \<and> i < length arr \<and> arr ! i = target"
  using assms
proof (induction arr target left right rule: binary_search_loop.induct)
  case (1 arr target left right)
  from 1(6) obtain j where j: "left \<le> int j" "int j \<le> right" "arr ! j = target" by blast
  then have lr: "left \<le> right" by simp
  define mid where "mid = left + (right - left) div 2"
  have mid: "left \<le> mid" "mid \<le> right" using lr by (auto simp: mid_def)
  then have g: "getitem arr mid = Inr (arr ! nat mid)"
    using 1(4,5) by (intro getitem_in) auto
  have jl: "j < length arr" using j 1(5) by simp
  have ml: "nat mid < length arr" using mid 1(4,5) by simp
  consider (eq) "arr ! nat mid = target" | (lt) "arr ! nat mid < target" | (gt) "arr ! nat mid > target"
    by linarith
  then show ?case
  proof cases
    case eq
    then show ?thesis using lr g ml mid 1(4)
      by (subst binary_search_loop.simps) (auto simp: mid_def[symmetric] intro!: exI[of _ "nat mid"])
  next
    case lt
    have "\<not> j \<le> nat mid"
    proof
      assume "j \<le> nat mid"
      then have "arr ! j \<le> arr ! nat mid" using 1(3) ml by (simp add: sorted_nth_mono)
      with lt j show False by simp
    qed
    then have "mid + 1 \<le> int j" by linarith
    with j have ex: "\<exists>j. mid + 1 \<le> int j \<and> int j \<le> right \<and> arr ! j = target" by blast
    have ne: "arr ! nat mid \<noteq> target" using lt by simp
    have "\<exists>i. binary_search_loop arr target (mid + 1) right = Inr (int i) \<and> i < length arr \<and> arr ! i = target"
      using 1(1)[OF lr mid_def g ne lt 1(3) _ 1(5) ex] mid 1(4) by simp
    then show ?thesis using lr g lt ne
      by (subst binary_search_loop.simps) (simp add: mid_def[symmetric])
  next
    case gt
    have "\<not> nat mid \<le> j"
    proof
      assume "nat mid \<le> j"
      then have "arr ! nat mid \<le> arr ! j" using 1(3) jl by (simp add: sorted_nth_mono)
      with gt j show False by simp
    qed
    then have "int j \<le> mid - 1" by linarith
    with j have ex: "\<exists>j. left \<le> int j \<and> int j \<le> mid - 1 \<and> arr ! j = target" by blast
    have ne: "arr ! nat mid \<noteq> target" and nlt: "\<not> arr ! nat mid < target" using gt by simp_all
    have "\<exists>i. binary_search_loop arr target left (mid - 1) = Inr (int i) \<and> i < length arr \<and> arr ! i = target"
      using 1(2)[OF lr mid_def g ne nlt 1(3) 1(4) _ ex] mid 1(5) by simp
    then show ?thesis using lr g ne nlt
      by (subst binary_search_loop.simps) (simp add: mid_def[symmetric])
  qed
qed

lemma find_first_loop_minimal:
  assumes "sorted arr" "0 \<le> left" "left \<le> right + 1" "right < int (length arr)"
    "\<forall>i < nat left. arr ! i < target"
    "(result = - 1 \<and> (\<forall>i. nat (right + 1) \<le> i \<and> i < length arr \<longrightarrow> target < arr ! i)) \<or>
     (result = right + 1 \<and> result < int (length arr) \<and> arr ! nat result = target)"
    "target \<in> set arr"
  shows "\<exists>i. find_first_loop arr target left right result = Inr (int i) \<and> i < length arr \<and>
            arr ! i = target \<and> (\<forall>j < i. arr ! j \<noteq> target)"
  using assms
proof (induction arr target left right result rule: find_first_loop.induct)
  case (1 arr target left right result)
  show ?case
  proof (cases "left \<le> right")
    case False
    with "1.prems"(3) have lr: "left = right + 1" by simp
    from "1.prems"(7) obtain j where j: "j < length arr" "arr ! j = target"
      by (auto simp: in_set_conv_nth)
    have jl: "nat left \<le> j" using "1.prems"(5) j by (meson not_le order_less_irrefl)
    have res: "result = left \<and> result < int (length arr) \<and> arr ! nat result = target"
      using "1.prems"(6) lr j jl by auto
    have "\<forall>j < nat left. arr ! j \<noteq> target" using "1.prems"(5) by auto
    then show ?thesis using False res "1.prems"(2)
      by (subst find_first_loop.simps) (auto intro!: exI[of _ "nat left"])
  next
    case lr: True
    define mid where "mid = left + (right - left) div 2"
    have mid: "left \<le> mid" "mid \<le> right" using lr by (auto simp: mid_def)
    then have g: "getitem arr mid = Inr (arr ! nat mid)"
      using "1.prems"(2) "1.prems"(4) by (intro getitem_in) auto
    have ml: "nat mid < length arr" using mid "1.prems"(2) "1.prems"(4) by simp
    let ?goal = "\<lambda>l r res. \<exists>i. find_first_loop arr target l r res = Inr (int i) \<and> i < length arr \<and>
            arr ! i = target \<and> (\<forall>j < i. arr ! j \<noteq> target)"
    consider (eq) "arr ! nat mid = target" | (lt) "arr ! nat mid < target" | (gt) "arr ! nat mid > target"
      by linarith
    then show ?thesis
    proof cases
      case eq
      have inv: "(mid = - 1 \<and> (\<forall>i. nat (mid - 1 + 1) \<le> i \<and> i < length arr \<longrightarrow> target < arr ! i)) \<or>
         (mid = mid - 1 + 1 \<and> mid < int (length arr) \<and> arr ! nat mid = target)"
        using eq ml mid "1.prems"(2) by simp
      have "?goal left (mid - 1) mid"
        using "1.IH"(1)[OF lr mid_def g eq "1.prems"(1) "1.prems"(2) _ _ "1.prems"(5) inv "1.prems"(7)] mid "1.prems"(4) by simp
      then show ?thesis using lr g eq
        by (subst find_first_loop.simps) (simp add: mid_def[symmetric])
    next
      case lt
      have ne: "arr ! nat mid \<noteq> target" using lt by simp
      have low: "\<forall>i < nat (mid + 1). arr ! i < target"
      proof (intro allI impI)
        fix i assume "i < nat (mid + 1)"
        then have "i \<le> nat mid" using mid "1.prems"(2) by linarith
        then have "arr ! i \<le> arr ! nat mid" using "1.prems"(1) ml by (simp add: sorted_nth_mono)
        with lt show "arr ! i < target" by simp
      qed
      have "?goal (mid + 1) right result"
        using "1.IH"(2)[OF lr mid_def g ne lt "1.prems"(1) _ _ "1.prems"(4) low "1.prems"(6) "1.prems"(7)] mid "1.prems"(2) by simp
      then show ?thesis using lr g lt ne
        by (subst find_first_loop.simps) (simp add: mid_def[symmetric])
    next
      case gt
      have ne: "arr ! nat mid \<noteq> target" and nlt: "\<not> arr ! nat mid < target" using gt by simp_all
      have hi: "\<forall>i. nat mid \<le> i \<and> i < length arr \<longrightarrow> target < arr ! i"
      proof (intro allI impI)
        fix i assume "nat mid \<le> i \<and> i < length arr"
        then have "arr ! nat mid \<le> arr ! i" using "1.prems"(1) by (simp add: sorted_nth_mono)
        with gt show "target < arr ! i" by simp
      qed
      have r1: "result = - 1"
      proof (rule ccontr)
        assume "result \<noteq> - 1"
        with "1.prems"(6) have r: "result = right + 1" "result < int (length arr)" "arr ! nat result = target" by auto
        then have "nat mid \<le> nat result \<and> nat result < length arr" using mid "1.prems"(2) by linarith
        with hi have "target < arr ! nat result" by blast
        with r show False by simp
      qed
      have inv: "(result = - 1 \<and> (\<forall>i. nat (mid - 1 + 1) \<le> i \<and> i < length arr \<longrightarrow> target < arr ! i)) \<or>
         (result = mid - 1 + 1 \<and> result < int (length arr) \<and> arr ! nat result = target)"
        using r1 hi by simp
      have "?goal left (mid - 1) result"
        using "1.IH"(3)[OF lr mid_def g ne nlt "1.prems"(1) "1.prems"(2) _ _ "1.prems"(5) inv "1.prems"(7)] mid "1.prems"(4) by simp
      then show ?thesis using lr g ne nlt
        by (subst find_first_loop.simps) (simp add: mid_def[symmetric])
    qed
  qed
qed

lemma find_last_loop_maximal:
  assumes "sorted arr" "0 \<le> left" "left \<le> right + 1" "right < int (length arr)"
    "\<forall>i. nat (right + 1) \<le> i \<and> i < length arr \<longrightarrow> target < arr ! i"
    "(result = - 1 \<and> (\<forall>i < nat left. arr ! i < target)) \<or>
     (result = left - 1 \<and> 0 \<le> result \<and> arr ! nat result = target)"
    "target \<in> set arr"
  shows "\<exists>i. find_last_loop arr target left right result = Inr (int i) \<and> i < length arr \<and>
            arr ! i = target \<and> (\<forall>j. i < j \<and> j < length arr \<longrightarrow> arr ! j \<noteq> target)"
  using assms
proof (induction arr target left right result rule: find_last_loop.induct)
  case (1 arr target left right result)
  note srt = "1.prems"(1) and l0 = "1.prems"(2) and lr1 = "1.prems"(3) and rlen = "1.prems"(4)
    and hi = "1.prems"(5) and inv = "1.prems"(6) and mem = "1.prems"(7)
  let ?goal = "\<lambda>l r res. \<exists>i. find_last_loop arr target l r res = Inr (int i) \<and> i < length arr \<and>
            arr ! i = target \<and> (\<forall>j. i < j \<and> j < length arr \<longrightarrow> arr ! j \<noteq> target)"
  show ?case
  proof (cases "left \<le> right")
    case False
    with lr1 have lr: "left = right + 1" by simp
    from mem obtain j where j: "j < length arr" "arr ! j = target"
      by (auto simp: in_set_conv_nth)
    have jl: "j < nat left" using hi j lr by (metis not_le order_less_irrefl)
    have res: "result = left - 1 \<and> 0 \<le> result \<and> arr ! nat result = target"
      using inv j jl by auto
    have "\<forall>j. nat result < j \<and> j < length arr \<longrightarrow> arr ! j \<noteq> target"
    proof (intro allI impI)
      fix j assume a: "nat result < j \<and> j < length arr"
      then have "nat (right + 1) \<le> j" using res lr by linarith
      with hi a have "target < arr ! j" by blast
      then show "arr ! j \<noteq> target" by simp
    qed
    then show ?thesis using False res rlen lr
      by (subst find_last_loop.simps) (auto intro!: exI[of _ "nat result"])
  next
    case lr: True
    define mid where "mid = left + (right - left) div 2"
    have mid: "left \<le> mid" "mid \<le> right" using lr by (auto simp: mid_def)
    then have g: "getitem arr mid = Inr (arr ! nat mid)"
      using l0 rlen by (intro getitem_in) auto
    have ml: "nat mid < length arr" using mid l0 rlen by simp
    consider (eq) "arr ! nat mid = target" | (lt) "arr ! nat mid < target" | (gt) "arr ! nat mid > target"
      by linarith
    then show ?thesis
    proof cases
      case eq
      have inv': "(mid = - 1 \<and> (\<forall>i < nat (mid + 1). arr ! i < target)) \<or>
         (mid = mid + 1 - 1 \<and> 0 \<le> mid \<and> arr ! nat mid = target)"
        using eq mid l0 by simp
      have "?goal (mid + 1) right mid"
        using "1.IH"(1)[OF lr mid_def g eq srt _ _ rlen hi inv' mem] mid l0 by simp
      then show ?thesis using lr g eq
        by (subst find_last_loop.simps) (simp add: mid_def[symmetric])
    next
      case lt
      have ne: "arr ! nat mid \<noteq> target" using lt by simp
      have low: "\<forall>i < nat (mid + 1). arr ! i < target"
      proof (intro allI impI)
        fix i assume "i < nat (mid + 1)"
        then have "i \<le> nat mid" using mid l0 by linarith
        then have "arr ! i \<le> arr ! nat mid" using srt ml by (simp add: sorted_nth_mono)
        with lt show "arr ! i < target" by simp
      qed
      have r1: "result = - 1"
      proof (rule ccontr)
        assume "result \<noteq> - 1"
        with inv have r: "result = left - 1" "0 \<le> result" "arr ! nat result = target" by auto
        then have "nat result < nat (mid + 1)" using mid by linarith
        with low have "arr ! nat result < target" by blast
        with r show False by simp
      qed
      have inv': "(result = - 1 \<and> (\<forall>i < nat (mid + 1). arr ! i < target)) \<or>
         (result = mid + 1 - 1 \<and> 0 \<le> result \<and> arr ! nat result = target)"
        using r1 low by simp
      have "?goal (mid + 1) right result"
        using "1.IH"(2)[OF lr mid_def g ne lt srt _ _ rlen hi inv' mem] mid l0 by simp
      then show ?thesis using lr g lt ne
        by (subst find_last_loop.simps) (simp add: mid_def[symmetric])
    next
      case gt
      have ne: "arr ! nat mid \<noteq> target" and nlt: "\<not> arr ! nat mid < target" using gt by simp_all
      have hi': "\<forall>i. nat (mid - 1 + 1) \<le> i \<and> i < length arr \<longrightarrow> target < arr ! i"
      proof (intro allI impI)
        fix i assume "nat (mid - 1 + 1) \<le> i \<and> i < length arr"
        then have "arr ! nat mid \<le> arr ! i" using srt by (simp add: sorted_nth_mono)
        with gt show "target < arr ! i" by simp
      qed
      have "?goal left (mid - 1) result"
        using "1.IH"(3)[OF lr mid_def g ne nlt srt l0 _ _ hi' inv mem] mid rlen by simp
      then show ?thesis using lr g ne nlt
        by (subst find_last_loop.simps) (simp add: mid_def[symmetric])
    qed
  qed
qed

text \<open>
  C1. On a sorted list \<open>S\<close> that contains \<open>v\<close> (possibly several times),
  \<open>binary_search\<close> returns a valid index holding \<open>v\<close>, \<open>find_first_occurrence\<close>
  returns the least such index and \<open>find_last_occurrence\<close> the greatest.
\<close>

theorem binary_search_present:
  assumes "sorted S" "v \<in> set S"
  shows "(\<exists>i. binary_search S v = Inr (int i) \<and> i < length S \<and> S ! i = v) \<and>
         (\<exists>i. find_first_occurrence S v = Inr (int i) \<and> i < length S \<and> S ! i = v \<and>
              (\<forall>j < i. S ! j \<noteq> v)) \<and>
         (\<exists>i. find_last_occurrence S v = Inr (int i) \<and> i < length S \<and> S ! i = v \<and>
              (\<forall>j. i < j \<and> j < length S \<longrightarrow> S ! j \<noteq> v))"
proof (intro conjI)
  from assms(2) obtain j where j: "j < length S" "S ! j = v" by (auto simp: in_set_conv_nth)
  then have "\<exists>j. 0 \<le> int j \<and> int j \<le> int (length S) - 1 \<and> S ! j = v"
    by (intro exI[of _ j]) auto
  then show "\<exists>i. binary_search S v = Inr (int i) \<and> i < length S \<and> S ! i = v"
    unfolding binary_search_def using assms(1) by (intro binary_search_loop_finds) auto
  show "\<exists>i. find_first_occurrence S v = Inr (int i) \<and> i < length S \<and> S ! i = v \<and>
              (\<forall>j < i. S ! j \<noteq> v)"
    unfolding find_first_occurrence_def using assms by (intro find_first_loop_minimal) auto
  show "\<exists>i. find_last_occurrence S v = Inr (int i) \<and> i < length S \<and> S ! i = v \<and>
              (\<forall>j. i < j \<and> j < length S \<longrightarrow> S ! j \<noteq> v)"
    unfolding find_last_occurrence_def using assms by (intro find_last_loop_maximal) auto
qed

theorem binary_search_present_witness:
  "sorted [1, 3, 5, 5, 5, 7, 9, 11 :: int] \<and> 5 \<in> set [1, 3, 5, 5, 5, 7, 9, 11 :: int] \<and>
   binary_search [1, 3, 5, 5, 5, 7, 9, 11] 5 = Inr 3 \<and>
   find_first_occurrence [1, 3, 5, 5, 5, 7, 9, 11] 5 = Inr 2 \<and>
   find_last_occurrence [1, 3, 5, 5, 5, 7, 9, 11] 5 = Inr 4"
proof -
  have h1: "sorted [1, 3, 5, 5, 5, 7, 9, 11 :: int]" by simp
  have h2: "5 \<in> set [1, 3, 5, 5, 5, 7, 9, 11 :: int]" by simp
  show ?thesis using h1 h2 binary_search_present [OF h1 h2]
    by (simp add: binary_search_def find_first_occurrence_def find_last_occurrence_def getitem_def)
qed

section \<open>Properties of two\_pointers.py\<close>


lemma swap_items_in:
  "0 \<le> i \<Longrightarrow> i < int (length xs) \<Longrightarrow> 0 \<le> j \<Longrightarrow> j < int (length xs) \<Longrightarrow>
   swap_items xs i j = Inr (xs[nat i := xs ! nat j, nat j := xs ! nat i])"
  by (simp add: swap_items_def getitem_def setitem_def)

lemma colour_cases:
  assumes "set nums \<subseteq> {0, 1, 2 :: int}" "k < length nums"
  shows "nums ! k = 0 \<or> nums ! k = 1 \<or> nums ! k = 2"
proof -
  have "nums ! k \<in> set nums" using assms(2) by simp
  then have "nums ! k \<in> {0, 1, 2}" using assms(1) by blast
  then show ?thesis by simp
qed

lemma sort_colors_loop_inv:
  assumes "0 \<le> left" "left \<le> current" "current \<le> right + 1" "right < int (length nums)"
    "\<forall>i < nat left. nums ! i = 0"
    "\<forall>i. nat left \<le> i \<and> i < nat current \<longrightarrow> nums ! i = 1"
    "\<forall>i. nat (right + 1) \<le> i \<and> i < length nums \<longrightarrow> nums ! i = 2"
    "set nums \<subseteq> {0, 1, 2}"
  shows "\<exists>r. sort_colors_loop nums left right current = Inr r \<and> mset r = mset nums \<and> sorted r"
  using assms
proof (induction nums left right current rule: sort_colors_loop.induct)
  case (1 nums left right current)
  note l0 = "1.prems"(1) and lc = "1.prems"(2) and cr = "1.prems"(3) and rlen = "1.prems"(4)
    and zeros = "1.prems"(5) and ones = "1.prems"(6) and twos = "1.prems"(7) and dom = "1.prems"(8)
  show ?case
  proof (cases "current \<le> right")
    case False
    then have c: "current = right + 1" using cr by simp
    have "sorted nums"
      unfolding sorted_iff_nth_mono
    proof (intro allI impI)
      fix i j assume ij: "i \<le> j" "j < length nums"
      have "i < length nums" using ij by simp
      then have vi: "nums ! i = 0 \<or> nums ! i = 1 \<or> nums ! i = 2"
        using dom by (rule colour_cases[rotated])
      show "nums ! i \<le> nums ! j"
      proof (cases "j < nat left")
        case True
        then show ?thesis using zeros ij by simp
      next
        case jl: False
        show ?thesis
        proof (cases "j < nat current")
          case True
          then have "nums ! j = 1" using ones jl by simp
          moreover have "nums ! i = 0 \<or> nums ! i = 1"
            using zeros ones ij True by (cases "i < nat left") auto
          ultimately show ?thesis by auto
        next
          case False
          then have "nums ! j = 2" using twos c ij by simp
          then show ?thesis using vi by auto
        qed
      qed
    qed
    then show ?thesis using False by (subst sort_colors_loop.simps) simp
  next
    case True
    have cl: "0 \<le> current" "current < int (length nums)" using True l0 lc rlen by auto
    have ll: "left < int (length nums)" using cl lc by simp
    have r0: "0 \<le> right" using True cl by simp
    have g: "getitem nums current = Inr (nums ! nat current)"
      using cl by (simp add: getitem_def)
    have vc: "nums ! nat current = 0 \<or> nums ! nat current = 1 \<or> nums ! nat current = 2"
      using cl by (intro colour_cases[OF dom]) simp
    let ?goal = "\<lambda>n l r c. \<exists>res. sort_colors_loop n l r c = Inr res \<and> mset res = mset n \<and> sorted res"
    from vc consider (zero) "nums ! nat current = 0" | (two) "nums ! nat current = 2"
      | (one) "nums ! nat current = 1" by blast
    then show ?thesis
    proof cases
      case zero
      define nums' where "nums' = nums[nat left := nums ! nat current, nat current := nums ! nat left]"
      have sw: "swap_items nums left current = Inr nums'"
        unfolding nums'_def using swap_items_in[OF l0 ll cl] .
      have len: "length nums' = length nums" by (simp add: nums'_def)
      have ms: "mset nums' = mset nums"
        unfolding nums'_def using cl ll l0 by (simp add: mset_swap)
      have lv: "left < current \<Longrightarrow> nums ! nat left = 1"
        using ones l0 by simp
      have z': "\<forall>i < nat (left + 1). nums' ! i = 0"
      proof (intro allI impI)
        fix i assume a: "i < nat (left + 1)"
        show "nums' ! i = 0"
        proof (cases "i = nat left")
          case il: True
          show ?thesis
          proof (cases "left = current")
            case True
            then show ?thesis using il zero cl by (simp add: nums'_def)
          next
            case False
            then have "nat current \<noteq> i" using il l0 lc by linarith
            then show ?thesis using il zero ll l0 by (simp add: nums'_def)
          qed
        next
          case False
          then have "i < nat left" using a l0 by linarith
          moreover from this have "i \<noteq> nat current" using lc by linarith
          ultimately show ?thesis using zeros by (simp add: nums'_def)
        qed
      qed
      have o': "\<forall>i. nat (left + 1) \<le> i \<and> i < nat (current + 1) \<longrightarrow> nums' ! i = 1"
      proof (intro allI impI)
        fix i assume a: "nat (left + 1) \<le> i \<and> i < nat (current + 1)"
        then have nl: "i \<noteq> nat left" and gl: "nat left \<le> i" using l0 by linarith+
        show "nums' ! i = 1"
        proof (cases "i = nat current")
          case True
          then have "left < current" using nl l0 lc by linarith
          then have "nums ! nat left = 1" by (rule lv)
          then show ?thesis using True cl by (simp add: nums'_def)
        next
          case False
          then have "i < nat current" using a cl by linarith
          then have "nums ! i = 1" using ones gl by simp
          then show ?thesis using False nl by (simp add: nums'_def)
        qed
      qed
      have t': "\<forall>i. nat (right + 1) \<le> i \<and> i < length nums' \<longrightarrow> nums' ! i = 2"
      proof (intro allI impI)
        fix i assume a: "nat (right + 1) \<le> i \<and> i < length nums'"
        then have "i \<noteq> nat left" "i \<noteq> nat current" using True lc l0 by linarith+
        then show "nums' ! i = 2" using twos a len by (simp add: nums'_def)
      qed
      have d': "set nums' \<subseteq> {0, 1, 2}"
        using dom ms by (metis set_mset_mset)
      have "?goal nums' (left + 1) right (current + 1)"
        using "1.IH"(1)[OF True g zero sw _ _ _ _ z' o' t' d'] l0 lc True rlen len by simp
      then show ?thesis using True g zero sw ms
        by (subst sort_colors_loop.simps) auto
    next
      case two
      define nums' where "nums' = nums[nat current := nums ! nat right, nat right := nums ! nat current]"
      have sw: "swap_items nums current right = Inr nums'"
        unfolding nums'_def using swap_items_in[OF cl r0 rlen] .
      have len: "length nums' = length nums" by (simp add: nums'_def)
      have ms: "mset nums' = mset nums"
        unfolding nums'_def using cl r0 rlen by (simp add: mset_swap)
      have z': "\<forall>i < nat left. nums' ! i = 0"
      proof (intro allI impI)
        fix i assume a: "i < nat left"
        then have "i \<noteq> nat current" "i \<noteq> nat right" using True lc l0 by linarith+
        then show "nums' ! i = 0" using zeros a by (simp add: nums'_def)
      qed
      have o': "\<forall>i. nat left \<le> i \<and> i < nat current \<longrightarrow> nums' ! i = 1"
      proof (intro allI impI)
        fix i assume a: "nat left \<le> i \<and> i < nat current"
        then have "i \<noteq> nat current" "i \<noteq> nat right" using True lc l0 by linarith+
        then show "nums' ! i = 1" using ones a by (simp add: nums'_def)
      qed
      have t': "\<forall>i. nat (right - 1 + 1) \<le> i \<and> i < length nums' \<longrightarrow> nums' ! i = 2"
      proof (intro allI impI)
        fix i assume a: "nat (right - 1 + 1) \<le> i \<and> i < length nums'"
        show "nums' ! i = 2"
        proof (cases "i = nat right")
          case True
          then show ?thesis using two rlen r0 len by (simp add: nums'_def)
        next
          case False
          then have "nat (right + 1) \<le> i" using a r0 by linarith
          moreover have "i \<noteq> nat current" using False a True cl by linarith
          ultimately show ?thesis using twos a False len by (simp add: nums'_def)
        qed
      qed
      have d': "set nums' \<subseteq> {0, 1, 2}"
        using dom ms by (metis set_mset_mset)
      have ne: "nums ! nat current \<noteq> 0" using two by simp
      have "?goal nums' left (right - 1) current"
        using "1.IH"(2)[OF True g ne two sw l0 lc _ _ z' o' t' d'] True rlen len by simp
      then show ?thesis using True g two sw ms
        by (subst sort_colors_loop.simps) auto
    next
      case one
      have ne: "nums ! nat current \<noteq> 0" "nums ! nat current \<noteq> 2" using one by simp_all
      have o': "\<forall>i. nat left \<le> i \<and> i < nat (current + 1) \<longrightarrow> nums ! i = 1"
      proof (intro allI impI)
        fix i assume a: "nat left \<le> i \<and> i < nat (current + 1)"
        show "nums ! i = 1"
        proof (cases "i = nat current")
          case True then show ?thesis using one by simp
        next
          case False
          then have "i < nat current" using a cl by linarith
          then show ?thesis using ones a by simp
        qed
      qed
      have "?goal nums left right (current + 1)"
        using "1.IH"(3)[OF True g ne l0 _ _ rlen zeros o' twos dom] lc True by simp
      then show ?thesis using True g one
        by (subst sort_colors_loop.simps) auto
    qed
  qed
qed


text \<open>
  C8. For a list over \<open>{0, 1, 2}\<close>, \<open>sort_colors\<close> leaves a non-decreasing list
  over \<open>{0, 1, 2}\<close> with the same multiset of values, and running it again on the
  result changes nothing.
\<close>

theorem sort_colors_sorts:
  assumes "set nums \<subseteq> {0, 1, 2}"
  shows "\<exists>r. sort_colors nums = Inr r \<and> sorted r \<and> set r \<subseteq> {0, 1, 2} \<and>
           mset r = mset nums \<and> sort_colors r = Inr r"
proof -
  have "\<exists>r. sort_colors_loop nums 0 (int (length nums) - 1) 0 = Inr r \<and> mset r = mset nums \<and> sorted r"
    using assms by (intro sort_colors_loop_inv) auto
  then obtain r where r: "sort_colors nums = Inr r" "mset r = mset nums" "sorted r"
    unfolding sort_colors_def by blast
  have dom: "set r \<subseteq> {0, 1, 2}"
    using assms r(2) by (metis set_mset_mset)
  have "\<exists>r'. sort_colors_loop r 0 (int (length r) - 1) 0 = Inr r' \<and> mset r' = mset r \<and> sorted r'"
    using dom by (intro sort_colors_loop_inv) auto
  then obtain r' where r': "sort_colors r = Inr r'" "mset r' = mset r" "sorted r'"
    unfolding sort_colors_def by blast
  have "sort r = r'" using r'(2,3) by (rule properties_for_sort)
  moreover have "sort r = r" using r(3) by (rule sort_key_id_if_sorted[of "\<lambda>x. x", simplified])
  ultimately have "r' = r" by simp
  with r r' dom show ?thesis by blast
qed

theorem sort_colors_sorts_witness:
  "set [2, 0, 2, 1, 1, 0 :: int] \<subseteq> {0, 1, 2} \<and>
   sort_colors [2, 0, 2, 1, 1, 0] = Inr [0, 0, 1, 1, 2, 2] \<and>
   (\<exists>r. sort_colors [2, 0, 2, 1, 1, 0] = Inr r \<and> sorted r \<and> set r \<subseteq> {0, 1, 2} \<and>
        mset r = mset [2, 0, 2, 1, 1, 0] \<and> sort_colors r = Inr r)"
proof -
  have h: "set [2, 0, 2, 1, 1, 0 :: int] \<subseteq> {0, 1, 2}" by simp
  have v: "sort_colors [2, 0, 2, 1, 1, 0] = Inr [0, 0, 1, 1, 2, 2]"
    by (simp add: sort_colors_def getitem_def swap_items_def setitem_def)
  show ?thesis using h v sort_colors_sorts [OF h] by simp
qed

section \<open>Properties of merge\_intervals.py\<close>

subsection \<open>Idempotence of merging\<close>

lemma merge_loop_separated_id:
  "merged \<noteq> [] \<Longrightarrow> successively gap (last merged # rest) \<Longrightarrow> merge_loop merged rest = merged @ rest"
proof (induction rest arbitrary: merged)
  case Nil
  then show ?case by simp
next
  case (Cons current rest)
  from Cons.prems(2) have g: "snd (last merged) < fst current" and s: "successively gap (current # rest)"
    by (simp_all add: gap_def)
  have "merge_loop (merged @ [current]) rest = (merged @ [current]) @ rest"
    using s by (intro Cons.IH) simp_all
  then show ?case using g by (simp add: Let_def)
qed

lemma merge_loop_separates:
  "merged \<noteq> [] \<Longrightarrow> successively gap merged \<Longrightarrow> sorted (map fst (merged @ rest)) \<Longrightarrow>
   successively gap (merge_loop merged rest) \<and> sorted (map fst (merge_loop merged rest)) \<and>
   merge_loop merged rest \<noteq> []"
proof (induction rest arbitrary: merged)
  case Nil
  then show ?case by simp
next
  case (Cons current rest)
  obtain ms l where m: "merged = ms @ [l]"
    using Cons.prems(1) by (meson rev_exhaust)
  show ?case
  proof (cases "fst current \<le> snd l")
    case True
    let ?m' = "ms @ [(fst l, max (snd l) (snd current))]"
    have 1: "successively gap ?m'"
      using Cons.prems(2) unfolding m
      by (auto simp: successively_append_iff gap_def)
    have "map fst (?m' @ rest) = map fst ms @ fst l # map fst rest" by simp
    moreover have "sorted (map fst ms @ fst l # map fst rest)"
      using Cons.prems(3) unfolding m by (auto simp: sorted_append)
    ultimately have 2: "sorted (map fst (?m' @ rest))" by simp
    have "successively gap (merge_loop ?m' rest) \<and> sorted (map fst (merge_loop ?m' rest)) \<and>
      merge_loop ?m' rest \<noteq> []"
      using 1 2 by (intro Cons.IH) simp_all
    then show ?thesis using True by (simp add: m Let_def)
  next
    case False
    let ?m' = "merged @ [current]"
    have 1: "successively gap ?m'"
      using Cons.prems(2) False unfolding m
      by (auto simp: successively_append_iff gap_def)
    have 2: "sorted (map fst (?m' @ rest))" using Cons.prems(3) by simp
    have "successively gap (merge_loop ?m' rest) \<and> sorted (map fst (merge_loop ?m' rest)) \<and>
      merge_loop ?m' rest \<noteq> []"
      using 1 2 by (intro Cons.IH) simp_all
    then show ?thesis using False by (simp add: m Let_def)
  qed
qed

lemma merge_intervals_fixed:
  assumes "successively gap ys" "sorted (map fst ys)"
  shows "merge_intervals ys = ys"
proof (cases ys)
  case Nil
  then show ?thesis by (simp add: merge_intervals_def)
next
  case (Cons y rest)
  have s: "sort_key fst ys = ys" using assms(2) by (rule sort_key_id_if_sorted)
  have "merge_loop [y] rest = [y] @ rest"
    using assms(1) Cons by (intro merge_loop_separated_id) simp_all
  then show ?thesis using s Cons by (simp add: merge_intervals_def)
qed

text \<open>
  C4. Merging is idempotent: \<open>merge_intervals\<close> applied to its own output returns
  that output. This holds for every list of intervals, in particular for those with
  \<open>start \<le> end\<close>. The model is by value: the source sorts its argument and
  extends interval ends in place, which does not change the list it returns.
\<close>

theorem merge_intervals_idempotent:
  "merge_intervals (merge_intervals xs) = merge_intervals xs"
proof (cases "xs = []")
  case True
  then show ?thesis by (simp add: merge_intervals_def)
next
  case False
  define s where "s = sort_key fst xs"
  have ne: "s \<noteq> []" using False unfolding s_def by (metis length_sort list.size(3) length_0_conv)
  then obtain y rest where s: "s = y # rest" by (cases s) auto
  have "sorted (map fst s)" unfolding s_def by simp
  then have "successively gap (merge_loop [y] rest) \<and> sorted (map fst (merge_loop [y] rest)) \<and>
    merge_loop [y] rest \<noteq> []"
    unfolding s by (intro merge_loop_separates) simp_all
  moreover have "merge_intervals xs = merge_loop [y] rest"
    using False s by (simp add: merge_intervals_def s_def[symmetric])
  ultimately show ?thesis by (simp add: merge_intervals_fixed)
qed

subsection \<open>Counting in sorted lists\<close>

lemma count_upto_sort: "count_upto (sort ys) t = count_upto ys t"
proof -
  have "mset (filter (\<lambda>y. y \<le> t) (sort ys)) = mset (filter (\<lambda>y. y \<le> t) ys)"
    by (simp only: mset_filter mset_sort)
  then show ?thesis unfolding count_upto_def by (rule mset_eq_length)
qed

lemma count_upto_mono: "t \<le> u \<Longrightarrow> count_upto ys t \<le> count_upto ys u"
  unfolding count_upto_def by (induction ys) auto

lemma count_upto_le_length: "count_upto ys t \<le> length ys"
  by (simp add: count_upto_def)

text \<open>In a sorted list the values up to \<open>t\<close> are a prefix.\<close>

lemma count_upto_sorted_eq:
  assumes "sorted ys" "k \<le> length ys" "\<forall>i < k. ys ! i \<le> t" "k < length ys \<longrightarrow> t < ys ! k"
  shows "count_upto ys t = k"
proof -
  have a: "\<forall>y \<in> set (take k ys). y \<le> t"
    using assms(2,3) by (auto simp: in_set_conv_nth)
  have b: "\<forall>y \<in> set (drop k ys). \<not> y \<le> t"
  proof
    fix y assume "y \<in> set (drop k ys)"
    then obtain i where i: "i < length ys - k" "y = ys ! (k + i)"
      by (auto simp: in_set_conv_nth)
    then have "k < length ys" by simp
    with assms(4) have "t < ys ! k" by simp
    moreover have "ys ! k \<le> ys ! (k + i)" using assms(1) i by (simp add: sorted_nth_mono)
    ultimately show "\<not> y \<le> t" using i by simp
  qed
  have "filter (\<lambda>y. y \<le> t) ys = filter (\<lambda>y. y \<le> t) (take k ys) @ filter (\<lambda>y. y \<le> t) (drop k ys)"
    by (metis append_take_drop_id filter_append)
  also have "\<dots> = take k ys" using a b by simp
  finally show ?thesis using assms(2) by (simp add: count_upto_def)
qed

lemma count_upto_sorted_ge:
  assumes "sorted ys" "k < length ys" "ys ! k \<le> t"
  shows "Suc k \<le> count_upto ys t"
proof -
  have a: "\<forall>y \<in> set (take (Suc k) ys). y \<le> t"
  proof
    fix y assume "y \<in> set (take (Suc k) ys)"
    then obtain i where i: "i < Suc k" "y = ys ! i" using assms(2)
      by (auto simp: in_set_conv_nth)
    then have "ys ! i \<le> ys ! k" using assms(1,2) by (simp add: sorted_nth_mono)
    with assms(3) i show "y \<le> t" by simp
  qed
  have "filter (\<lambda>y. y \<le> t) ys = filter (\<lambda>y. y \<le> t) (take (Suc k) ys) @ filter (\<lambda>y. y \<le> t) (drop (Suc k) ys)"
    by (metis append_take_drop_id filter_append)
  also have "filter (\<lambda>y. y \<le> t) (take (Suc k) ys) = take (Suc k) ys" using a by simp
  finally have "length (take (Suc k) ys) \<le> count_upto ys t" by (simp add: count_upto_def)
  then show ?thesis using assms(2) by simp
qed

lemma count_upto_sorted_prefix:
  assumes "sorted ys" "i < count_upto ys t"
  shows "ys ! i \<le> t"
proof (rule ccontr)
  assume "\<not> ys ! i \<le> t"
  then have gt: "t < ys ! i" by simp
  have il: "i < length ys" using assms(2) count_upto_le_length[of ys t] by simp
  have b: "\<forall>y \<in> set (drop i ys). \<not> y \<le> t"
  proof
    fix y assume "y \<in> set (drop i ys)"
    then obtain j where j: "j < length ys - i" "y = ys ! (i + j)"
      by (auto simp: in_set_conv_nth)
    have "ys ! i \<le> ys ! (i + j)" using assms(1) j by (simp add: sorted_nth_mono)
    with gt show "\<not> y \<le> t" using j by simp
  qed
  have "filter (\<lambda>y. y \<le> t) ys = filter (\<lambda>y. y \<le> t) (take i ys) @ filter (\<lambda>y. y \<le> t) (drop i ys)"
    by (metis append_take_drop_id filter_append)
  also have "\<dots> = filter (\<lambda>y. y \<le> t) (take i ys)" using b by simp
  finally have "count_upto ys t \<le> length (take i ys)"
    unfolding count_upto_def by (metis length_filter_le)
  then show False using assms(2) by simp
qed

subsection \<open>Occupancy from the two sorted lists\<close>

lemma occupancy_count:
  assumes "\<forall>(s, e) \<in> set xs. s \<le> e"
  shows "occupancy xs t = int (count_upto (map fst xs) t) - int (count_upto (map snd xs) t)"
  using assms unfolding occupancy_def count_upto_def
  by (induction xs) auto

text \<open>With no empty meeting, the k-th smallest start is before the k-th smallest end.\<close>

lemma count_ends_le_starts:
  assumes "\<forall>(s, e) \<in> set (xs :: interval list). s < e"
  shows "length (filter (\<lambda>y. y \<le> v) (map snd xs)) \<le> length (filter (\<lambda>y. y < v) (map fst xs))"
  using assms by (induction xs) auto

lemma count_less_sorted:
  assumes "sorted ys" "k < length ys"
  shows "length (filter (\<lambda>y. y < ys ! k) ys) \<le> k"
proof -
  have b: "\<forall>y \<in> set (drop k ys). \<not> y < ys ! k"
  proof
    fix y assume "y \<in> set (drop k ys)"
    then obtain j where j: "j < length ys - k" "y = ys ! (k + j)"
      by (auto simp: in_set_conv_nth)
    have "ys ! k \<le> ys ! (k + j)" using assms(1) j by (simp add: sorted_nth_mono)
    then show "\<not> y < ys ! k" using j by simp
  qed
  have "filter (\<lambda>y. y < ys ! k) ys =
      filter (\<lambda>y. y < ys ! k) (take k ys) @ filter (\<lambda>y. y < ys ! k) (drop k ys)"
    by (metis append_take_drop_id filter_append)
  also have "\<dots> = filter (\<lambda>y. y < ys ! k) (take k ys)" using b by simp
  finally have "length (filter (\<lambda>y. y < ys ! k) ys) \<le> length (take k ys)"
    by (metis length_filter_le)
  then show ?thesis by simp
qed

lemma length_filter_sort: "length (filter P (sort ys)) = length (filter P (ys :: int list))"
proof -
  have "mset (filter P (sort ys)) = mset (filter P ys)"
    by (simp only: mset_filter mset_sort)
  then show ?thesis by (rule mset_eq_length)
qed

lemma length_filter_mono:
  "(\<And>y. P y \<Longrightarrow> Q y) \<Longrightarrow> length (filter P ys) \<le> length (filter Q ys)"
  by (induction ys) auto

lemma kth_start_before_kth_end:
  assumes "\<forall>(s, e) \<in> set (xs :: interval list). s < e" "k < length xs"
  shows "sort (map fst xs) ! k < sort (map snd xs) ! k"
proof (rule ccontr)
  let ?S = "sort (map fst xs)" and ?E = "sort (map snd xs)"
  assume "\<not> ?S ! k < ?E ! k"
  then have le: "?E ! k \<le> ?S ! k" by simp
  have kS: "k < length ?S" and kE: "k < length ?E" using assms(2) by simp_all
  have "Suc k \<le> count_upto ?E (?E ! k)"
    using kE by (intro count_upto_sorted_ge) simp_all
  also have "\<dots> = length (filter (\<lambda>y. y \<le> ?E ! k) (map snd xs))"
    by (simp add: count_upto_def length_filter_sort)
  also have "\<dots> \<le> length (filter (\<lambda>y. y < ?E ! k) (map fst xs))"
    using assms(1) by (rule count_ends_le_starts)
  also have "\<dots> \<le> length (filter (\<lambda>y. y < ?S ! k) (map fst xs))"
    using le by (intro length_filter_mono) simp
  also have "\<dots> = length (filter (\<lambda>y. y < ?S ! k) ?S)"
    by (simp add: length_filter_sort)
  also have "\<dots> \<le> k" using kS by (intro count_less_sorted) simp_all
  finally show False by simp
qed

subsection \<open>The sweep\<close>

text \<open>
  What the sweep returns, when it returns, for meetings with \<open>s \<le> e\<close>: the invariant
  ties \<open>rooms_needed\<close> after taking the k-th start to the ends that are at most that
  start.
\<close>

lemma min_meeting_rooms_loop_result:
  assumes "sorted S" "sorted E" "length S = n" "length E = n"
    "sp \<le> n" "ep \<le> n" "rooms = int sp - int ep"
    "sp < n \<longrightarrow> (\<forall>j < ep. E ! j \<le> S ! sp)"
    "\<forall>k < sp. int (Suc k) - int (count_upto E (S ! k)) \<le> maxr"
    "0 \<le> maxr"
    "maxr = 0 \<or> (\<exists>k < sp. maxr = int (Suc k) - int (count_upto E (S ! k)))"
    "min_meeting_rooms_loop S E n sp ep rooms maxr = Inr r"
  shows "0 \<le> r \<and> (\<forall>k < n. int (Suc k) - int (count_upto E (S ! k)) \<le> r) \<and>
         (r = 0 \<or> (\<exists>k < n. r = int (Suc k) - int (count_upto E (S ! k))))"
  using assms
proof (induction S E n sp ep rooms maxr rule: min_meeting_rooms_loop.induct)
  case (1 S E n sp ep rooms maxr)
  note srtS = "1.prems"(1) and srtE = "1.prems"(2) and lenS = "1.prems"(3) and lenE = "1.prems"(4)
    and spn = "1.prems"(5) and epn = "1.prems"(6) and rm = "1.prems"(7)
    and drained = "1.prems"(8) and ub = "1.prems"(9) and m0 = "1.prems"(10)
    and att = "1.prems"(11) and res = "1.prems"(12)
  let ?g = "\<lambda>k. int (Suc k) - int (count_upto E (S ! k))"
  show ?case
  proof (cases "sp < n")
    case False
    then have eq: "sp = n" using spn by simp
    have "min_meeting_rooms_loop S E n sp ep rooms maxr = Inr maxr"
      using False by (subst min_meeting_rooms_loop.simps) simp
    with res have "r = maxr" by simp
    then show ?thesis using ub att m0 eq by simp
  next
    case lt: True
    have gS: "getitem S (int sp) = Inr (S ! sp)"
      using lt lenS by (simp add: getitem_def)
    have ep_lt: "ep < n"
    proof (rule ccontr)
      assume "\<not> ep < n"
      then have "getitem E (int ep) = Inl IndexError" using lenE by (simp add: getitem_def)
      then have "min_meeting_rooms_loop S E n sp ep rooms maxr = Inl IndexError"
        using lt gS by (subst min_meeting_rooms_loop.simps) simp
      with res show False by simp
    qed
    have gE: "getitem E (int ep) = Inr (E ! ep)"
      using ep_lt lenE by (simp add: getitem_def)
    show ?thesis
    proof (cases "S ! sp < E ! ep")
      case take: True
      have cnt: "count_upto E (S ! sp) = ep"
      proof (rule count_upto_sorted_eq[OF srtE])
        show "ep \<le> length E" using ep_lt lenE by simp
        show "\<forall>i < ep. E ! i \<le> S ! sp" using drained lt by simp
        show "ep < length E \<longrightarrow> S ! sp < E ! ep" using take by simp
      qed
      have gsp: "?g sp = rooms + 1" using cnt rm by simp
      have 2: "sp + 1 \<le> n" using lt by simp
      have 3: "rooms + 1 = int (sp + 1) - int ep" using rm by simp
      have 4: "sp + 1 < n \<longrightarrow> (\<forall>j < ep. E ! j \<le> S ! (sp + 1))"
      proof (intro impI allI)
        fix j assume a: "sp + 1 < n" "j < ep"
        then have "E ! j \<le> S ! sp" using drained lt by simp
        moreover have "S ! sp \<le> S ! (sp + 1)"
          using srtS a lenS by (intro sorted_nth_mono) simp_all
        ultimately show "E ! j \<le> S ! (sp + 1)" by simp
      qed
      have 5: "\<forall>k < sp + 1. ?g k \<le> max maxr (rooms + 1)"
      proof (intro allI impI)
        fix k assume "k < sp + 1"
        then consider "k < sp" | "k = sp" by linarith
        then show "?g k \<le> max maxr (rooms + 1)"
        proof cases
          case 1
          then have "?g k \<le> maxr" using ub by simp
          then show ?thesis by simp
        next
          case 2
          then show ?thesis using gsp by simp
        qed
      qed
      have 6: "0 \<le> max maxr (rooms + 1)" using m0 by simp
      have 7: "max maxr (rooms + 1) = 0 \<or> (\<exists>k < sp + 1. max maxr (rooms + 1) = ?g k)"
      proof (cases "maxr \<le> rooms + 1")
        case True
        then have "max maxr (rooms + 1) = ?g sp" using gsp by simp
        then show ?thesis by (intro disjI2 exI[of _ sp]) simp
      next
        case False
        then have mx: "max maxr (rooms + 1) = maxr" by simp
        from att show ?thesis
        proof
          assume "maxr = 0"
          then show ?thesis using mx by simp
        next
          assume "\<exists>k < sp. maxr = ?g k"
          then obtain k where "k < sp" "maxr = ?g k" by blast
          then show ?thesis unfolding mx by (intro disjI2 exI[of _ k]) simp
        qed
      qed
      have next_res: "min_meeting_rooms_loop S E n (sp + 1) ep (rooms + 1) (max maxr (rooms + 1)) = Inr r"
        using res lt take by (subst (asm) min_meeting_rooms_loop.simps) (simp add: gS gE)
      show ?thesis
        by (rule "1.IH"(1)[OF lt gS gE take srtS srtE lenS lenE 2 epn 3 4 5 6 7 next_res])
    next
      case drain: False
      have 1: "ep + 1 \<le> n" using ep_lt by simp
      have 3: "rooms - 1 = int sp - int (ep + 1)" using rm by simp
      have 4: "sp < n \<longrightarrow> (\<forall>j < ep + 1. E ! j \<le> S ! sp)"
      proof (intro impI allI)
        fix j assume "j < ep + 1"
        then consider "j < ep" | "j = ep" by linarith
        then show "E ! j \<le> S ! sp"
        proof cases
          case 1
          then show ?thesis using drained lt by simp
        next
          case 2
          then show ?thesis using drain by simp
        qed
      qed
      have next_res: "min_meeting_rooms_loop S E n sp (ep + 1) (rooms - 1) maxr = Inr r"
        using res lt drain by (subst (asm) min_meeting_rooms_loop.simps) (simp add: gS gE)
      show ?thesis
        by (rule "1.IH"(2)[OF lt gS gE drain srtS srtE lenS lenE spn 1 3 4 ub m0 att next_res])
    qed
  qed
qed

text \<open>
  With every meeting of positive length the end pointer never passes the start pointer,
  so no read is out of range.
\<close>

lemma min_meeting_rooms_loop_returns:
  assumes "length S = n" "length E = n" "\<forall>k < n. S ! k < E ! k" "ep \<le> sp" "sp \<le> n"
  shows "\<exists>r. min_meeting_rooms_loop S E n sp ep rooms maxr = Inr r"
  using assms
proof (induction S E n sp ep rooms maxr rule: min_meeting_rooms_loop.induct)
  case (1 S E n sp ep rooms maxr)
  note lenS = "1.prems"(1) and lenE = "1.prems"(2) and kth = "1.prems"(3)
    and epsp = "1.prems"(4) and spn = "1.prems"(5)
  show ?case
  proof (cases "sp < n")
    case False
    then show ?thesis by (subst min_meeting_rooms_loop.simps) simp
  next
    case lt: True
    have gS: "getitem S (int sp) = Inr (S ! sp)"
      using lt lenS by (simp add: getitem_def)
    have gE: "getitem E (int ep) = Inr (E ! ep)"
      using lt epsp lenE by (simp add: getitem_def)
    show ?thesis
    proof (cases "S ! sp < E ! ep")
      case take: True
      have "\<exists>r. min_meeting_rooms_loop S E n (sp + 1) ep (rooms + 1) (max maxr (rooms + 1)) = Inr r"
        using epsp lt by (intro "1.IH"(1)[OF lt gS gE take lenS lenE kth]) simp_all
      then show ?thesis
        using lt take by (subst min_meeting_rooms_loop.simps) (simp add: gS gE)
    next
      case drain: False
      have "ep \<noteq> sp"
      proof
        assume "ep = sp"
        then have "S ! sp < E ! ep" using kth lt by simp
        with drain show False by simp
      qed
      then have "ep + 1 \<le> sp" using epsp by simp
      then have "\<exists>r. min_meeting_rooms_loop S E n sp (ep + 1) (rooms - 1) maxr = Inr r"
        using spn by (intro "1.IH"(2)[OF lt gS gE drain lenS lenE kth])
      then show ?thesis
        using lt drain by (subst min_meeting_rooms_loop.simps) (simp add: gS gE)
    qed
  qed
qed

text \<open>
  Whenever \<open>min_meeting_rooms\<close> returns on meetings with \<open>s \<le> e\<close>, it returns the
  greatest number of meetings in progress at one time, a meeting \<open>[s, e]\<close> being in
  progress from \<open>s\<close> up to, but not at, \<open>e\<close>: two meetings that touch share a room.
\<close>

lemma min_meeting_rooms_result:
  assumes "\<forall>(s, e) \<in> set intervals. s \<le> e" "min_meeting_rooms intervals = Inr r"
  shows "(\<forall>t. occupancy intervals t \<le> r) \<and> (\<exists>t. occupancy intervals t = r)"
proof (cases "intervals = []")
  case True
  then have "r = 0" using assms(2) by (simp add: min_meeting_rooms_def)
  then show ?thesis using True by (simp add: occupancy_def)
next
  case ne: False
  define S where "S = sort (map fst intervals)"
  define E where "E = sort (map snd intervals)"
  define n where "n = length intervals"
  let ?g = "\<lambda>k. int (Suc k) - int (count_upto E (S ! k))"
  have srtS: "sorted S" and srtE: "sorted E" by (simp_all add: S_def E_def)
  have lenS: "length S = n" and lenE: "length E = n" by (simp_all add: S_def E_def n_def)
  have occ: "occupancy intervals t = int (count_upto S t) - int (count_upto E t)" for t
    unfolding S_def E_def by (simp only: count_upto_sort occupancy_count[OF assms(1)])
  have res: "min_meeting_rooms_loop S E n 0 0 0 0 = Inr r"
    using assms(2) ne
    by (simp add: min_meeting_rooms_def Let_def S_def E_def n_def del: min_meeting_rooms_loop.simps)
  have "0 \<le> r \<and> (\<forall>k < n. ?g k \<le> r) \<and> (r = 0 \<or> (\<exists>k < n. r = ?g k))"
    using srtS srtE lenS lenE _ _ _ _ _ _ _ res
    by (rule min_meeting_rooms_loop_result) simp_all
  then have r0: "0 \<le> r" and ub: "\<forall>k < n. ?g k \<le> r"
    and att: "r = 0 \<or> (\<exists>k < n. r = ?g k)" by blast+
  have upper: "occupancy intervals t \<le> r" for t
  proof (cases "count_upto S t")
    case 0
    then show ?thesis using r0 by (simp add: occ)
  next
    case (Suc c)
    have cn: "c < n" using Suc count_upto_le_length[of S t] lenS by simp
    have "S ! c \<le> t" using srtS Suc by (intro count_upto_sorted_prefix) simp_all
    then have "count_upto E (S ! c) \<le> count_upto E t" by (rule count_upto_mono)
    then have "occupancy intervals t \<le> ?g c" using Suc by (simp add: occ)
    also have "\<dots> \<le> r" using ub cn by simp
    finally show ?thesis .
  qed
  from att have "\<exists>t. occupancy intervals t = r"
  proof
    assume "r = 0"
    moreover have "0 \<le> occupancy intervals 0" by (simp add: occupancy_def)
    ultimately have "occupancy intervals 0 = r" using upper[of 0] by simp
    then show ?thesis by blast
  next
    assume "\<exists>k < n. r = ?g k"
    then obtain k where k: "k < n" "r = ?g k" by blast
    have "Suc k \<le> count_upto S (S ! k)"
      using srtS k(1) lenS by (intro count_upto_sorted_ge) simp_all
    then have "r \<le> occupancy intervals (S ! k)" using k(2) by (simp add: occ)
    with upper[of "S ! k"] have "occupancy intervals (S ! k) = r" by simp
    then show ?thesis by blast
  qed
  with upper show ?thesis by blast
qed

lemma min_meeting_rooms_returns:
  assumes "\<forall>(s, e) \<in> set intervals. s < e"
  shows "\<exists>r. min_meeting_rooms intervals = Inr r"
proof (cases "intervals = []")
  case True
  then show ?thesis by (simp add: min_meeting_rooms_def)
next
  case False
  have "\<forall>k < length intervals. sort (map fst intervals) ! k < sort (map snd intervals) ! k"
    using kth_start_before_kth_end[OF assms] by blast
  then have "\<exists>r. min_meeting_rooms_loop (sort (map fst intervals)) (sort (map snd intervals))
      (length intervals) 0 0 0 0 = Inr r"
    by (intro min_meeting_rooms_loop_returns) simp_all
  then show ?thesis using False
    by (simp add: min_meeting_rooms_def Let_def del: min_meeting_rooms_loop.simps)
qed

text \<open>
  A meeting of length zero that starts while another is in progress is drained in time:
  the sweep returns, and returns the greatest occupancy.
\<close>

lemma min_meeting_rooms_empty_meeting_inside:
  "min_meeting_rooms [(1, 5), (3, 3)] = Inr 1"
  by (simp add: min_meeting_rooms_def getitem_def)

subsection \<open>A meeting of length zero at the end of the sweep\<close>

text \<open>
  C3. The claim covers every non-empty list of meetings with \<open>s \<le> e\<close>, and says that
  \<open>min_meeting_rooms\<close> returns the greatest half-open occupancy. The single meeting
  \<open>[5, 5]\<close> is such a list; nothing is ever in progress, so the claimed result is 0.
  The sweep finds \<open>starts[0] < ends[0]\<close> false, drains the only end, and then reads
  \<open>ends[1]\<close>: the loop condition bounds \<open>start_ptr\<close> only, \<open>end_ptr\<close> has passed
  the end of the list, and the call raises IndexError.
\<close>

theorem min_meeting_rooms_empty_meeting_raises:
  "min_meeting_rooms [(5, 5)] = Inl IndexError \<and> (\<forall>t. occupancy [(5, 5)] t = 0)"
  by (simp add: min_meeting_rooms_def getitem_def occupancy_def)

section \<open>Properties of subsets\_backtracking.py\<close>











section \<open>Properties of fast\_slow\_pointers.py\<close>

subsection \<open>Positions along the chain\<close>

lemma node_at_add: "node_at h p (i + j) = node_at h (node_at h p i) j"
  by (induction j) auto

lemma node_at_from_None: "node_at h None n = None"
  by (induction n) auto

lemma node_at_None_later:
  assumes "node_at h p i = None" "i \<le> j"
  shows "node_at h p j = None"
proof -
  have "node_at h p (i + (j - i)) = node_at h None (j - i)"
    using assms(1) by (simp only: node_at_add)
  then show ?thesis using assms(2) by (simp add: node_at_from_None)
qed

lemma node_at_Some_earlier:
  assumes "node_at h p j \<noteq> None" "i \<le> j"
  shows "node_at h p i \<noteq> None"
proof
  assume "node_at h p i = None"
  then have "node_at h p j = None" using assms(2) by (rule node_at_None_later)
  with assms(1) show False by (rule notE)
qed

lemma get_next_node_at:
  assumes "node_at h p i \<noteq> None"
  shows "get_next h (node_at h p i) = Inr (node_at h p (Suc i))"
  using assms by (auto simp: get_next_def)

subsection \<open>One iteration of each loop\<close>

lemma has_cycle_loop_step:
  assumes "node_at h p (Suc (2 * i)) \<noteq> None"
  shows "has_cycle_loop h (node_at h p i) (node_at h p (2 * i)) =
           (if node_at h p (Suc i) = node_at h p (2 * Suc i) then Some (Inr True)
            else has_cycle_loop h (node_at h p (Suc i)) (node_at h p (2 * Suc i)))"
proof -
  from assms obtain fn where fn: "node_at h p (Suc (2 * i)) = Some fn" by blast
  have "node_at h p (2 * i) \<noteq> None"
    using assms by (rule node_at_Some_earlier) simp
  then obtain f where f: "node_at h p (2 * i) = Some f" by blast
  have fn': "nxt (h f) = Some fn" using fn f by simp
  have "node_at h p i \<noteq> None"
    using assms by (rule node_at_Some_earlier) simp
  then have g: "get_next h (node_at h p i) = Inr (node_at h p (Suc i))"
    by (rule get_next_node_at)
  have nn: "nxt (h fn) = node_at h p (2 * Suc i)" using fn by simp
  show ?thesis
    by (subst has_cycle_loop.simps) (simp only: f fn' g nn option.case sum.case Let_def)
qed

lemma has_cycle_loop_exit:
  assumes "node_at h p (Suc (2 * i)) = None"
  shows "has_cycle_loop h s (node_at h p (2 * i)) = Some (Inr False)"
proof (cases "node_at h p (2 * i)")
  case None
  then show ?thesis by (subst has_cycle_loop.simps) simp
next
  case (Some f)
  then have "nxt (h f) = None" using assms by simp
  with Some show ?thesis by (subst has_cycle_loop.simps) simp
qed

lemma find_meeting_loop_step:
  assumes "node_at h p (Suc (2 * i)) \<noteq> None"
  shows "find_meeting_loop h (node_at h p i) (node_at h p (2 * i)) =
           (if node_at h p (Suc i) = node_at h p (2 * Suc i) then Some (Inr (Broke (node_at h p (Suc i))))
            else find_meeting_loop h (node_at h p (Suc i)) (node_at h p (2 * Suc i)))"
proof -
  from assms obtain fn where fn: "node_at h p (Suc (2 * i)) = Some fn" by blast
  have "node_at h p (2 * i) \<noteq> None"
    using assms by (rule node_at_Some_earlier) simp
  then obtain f where f: "node_at h p (2 * i) = Some f" by blast
  have fn': "nxt (h f) = Some fn" using fn f by simp
  have "node_at h p i \<noteq> None"
    using assms by (rule node_at_Some_earlier) simp
  then have g: "get_next h (node_at h p i) = Inr (node_at h p (Suc i))"
    by (rule get_next_node_at)
  have nn: "nxt (h fn) = node_at h p (2 * Suc i)" using fn by simp
  show ?thesis
    by (subst find_meeting_loop.simps) (simp only: f fn' g nn option.case sum.case Let_def)
qed

lemma find_meeting_loop_exit:
  assumes "node_at h p (Suc (2 * i)) = None"
  shows "find_meeting_loop h s (node_at h p (2 * i)) = Some (Inr Exhausted)"
proof (cases "node_at h p (2 * i)")
  case None
  then show ?thesis by (subst find_meeting_loop.simps) simp
next
  case (Some f)
  then have "nxt (h f) = None" using assms by simp
  with Some show ?thesis by (subst find_meeting_loop.simps) simp
qed

lemma find_start_loop_step:
  assumes "node_at h p i \<noteq> None" "node_at h p j \<noteq> None"
  shows "find_start_loop h (node_at h p i) (node_at h p j) =
           (if node_at h p i = node_at h p j then Some (Inr (node_at h p i))
            else find_start_loop h (node_at h p (Suc i)) (node_at h p (Suc j)))"
  by (subst find_start_loop.simps)
     (simp only: get_next_node_at[OF assms(1)] get_next_node_at[OF assms(2)] sum.case if_not_P
        split: if_split, simp)

subsection \<open>A chain with a cycle\<close>

lemma lasso_period:
  assumes "lasso h head m l" "m \<le> n"
  shows "node_at h head (n + q * l) = node_at h head n"
proof (induction q)
  case 0
  show ?case by simp
next
  case (Suc q)
  have "n + Suc q * l = (m + l) + ((n - m) + q * l)" using assms(2) by simp
  then have "node_at h head (n + Suc q * l) = node_at h (node_at h head (m + l)) ((n - m) + q * l)"
    by (simp only: node_at_add)
  also have "\<dots> = node_at h (node_at h head m) ((n - m) + q * l)"
    using assms(1) by (simp add: lasso_def)
  also have "\<dots> = node_at h head (m + ((n - m) + q * l))"
    by (simp only: node_at_add)
  also have "m + ((n - m) + q * l) = n + q * l" using assms(2) by simp
  finally show ?case using Suc by simp
qed

lemma lasso_canon:
  assumes "lasso h head m l"
  shows "node_at h head n = node_at h head (canon m l n)"
proof (cases "n < m")
  case True
  then show ?thesis by (simp add: canon_def)
next
  case False
  define r where "r = (n - m) mod l"
  define q where "q = (n - m) div l"
  have "n = (m + r) + q * l" using False by (simp add: r_def q_def)
  then have "node_at h head n = node_at h head ((m + r) + q * l)" by simp
  also have "\<dots> = node_at h head (m + r)"
    using assms by (rule lasso_period) simp
  finally show ?thesis using False by (simp add: canon_def r_def)
qed

lemma canon_less: "0 < l \<Longrightarrow> canon m l n < m + l"
  by (simp add: canon_def)

lemma lasso_never_None:
  assumes "lasso h head m l"
  shows "node_at h head n \<noteq> None"
proof -
  have "canon m l n < m + l" using assms by (simp add: canon_less lasso_def)
  then have "node_at h head (canon m l n) \<noteq> None" using assms by (simp add: lasso_def)
  then show ?thesis using lasso_canon[OF assms, of n] by simp
qed

lemma lasso_eq_iff:
  assumes "lasso h head m l"
  shows "node_at h head i = node_at h head j \<longleftrightarrow> canon m l i = canon m l j"
proof -
  have l: "0 < l" and d: "distinct (map (node_at h head) [0 ..< m + l])"
    using assms by (simp_all add: lasso_def)
  have ci: "canon m l i < m + l" and cj: "canon m l j < m + l" using l by (simp_all add: canon_less)
  have "node_at h head (canon m l i) = node_at h head (canon m l j) \<longleftrightarrow> canon m l i = canon m l j"
    using nth_eq_iff_index_eq[OF d, of "canon m l i" "canon m l j"] ci cj by simp
  then show ?thesis
    using lasso_canon[OF assms, of i] lasso_canon[OF assms, of j] by simp
qed

lemma canon_meet:
  assumes "0 < l" "0 < t" "canon m l t = canon m l (2 * t)"
  shows "m \<le> t \<and> l dvd t"
proof -
  have mt: "m \<le> t"
  proof (rule ccontr)
    assume "\<not> m \<le> t"
    then have "canon m l t = t" by (simp add: canon_def)
    moreover have "canon m l (2 * t) \<noteq> t"
      using assms(2) \<open>\<not> m \<le> t\<close> by (auto simp: canon_def)
    ultimately show False using assms(3) by simp
  qed
  then have "(t - m) mod l = (2 * t - m) mod l"
    using assms(3) by (simp add: canon_def)
  moreover have "2 * t - m = (t - m) + t" using mt by simp
  ultimately have "(t - m) mod l = ((t - m) + t) mod l" by simp
  then have "l dvd t"
    by (metis add_diff_cancel_left' dvd_minus_mod mod_add_left_eq mod_mod_trivial dvd_add_right_iff mod_eq_0_iff_dvd minus_mod_eq_mult_div dvd_triv_left add.commute)
  with mt show ?thesis by simp
qed

lemma lasso_meeting_exists:
  assumes "lasso h head m l"
  shows "\<exists>t. 0 < t \<and> node_at h head t = node_at h head (2 * t)"
proof -
  have l: "0 < l" using assms by (simp add: lasso_def)
  define t where "t = l * (m + 1)"
  have t0: "0 < t" using l by (simp add: t_def)
  have mt: "m \<le> t"
  proof -
    have "m + 1 \<le> l * (m + 1)" using l by (cases l) simp_all
    then show ?thesis by (simp add: t_def)
  qed
  have "2 * t - m = (t - m) + t" using mt by simp
  moreover have "t mod l = 0" by (simp add: t_def)
  ultimately have "(2 * t - m) mod l = (t - m) mod l"
    by (metis add.right_neutral mod_add_right_eq)
  then have "canon m l t = canon m l (2 * t)" using mt by (simp add: canon_def)
  then have "node_at h head t = node_at h head (2 * t)"
    by (simp add: lasso_eq_iff[OF assms])
  with t0 show ?thesis by blast
qed

lemma has_cycle_loop_meets:
  assumes "\<forall>n. node_at h p n \<noteq> None"
    "node_at h p T = node_at h p (2 * T)"
    "\<forall>t. i < t \<and> t < T \<longrightarrow> node_at h p t \<noteq> node_at h p (2 * t)"
    "i < T"
  shows "has_cycle_loop h (node_at h p i) (node_at h p (2 * i)) = Some (Inr True)"
  using assms(3,4)
proof (induction "T - i" arbitrary: i)
  case 0
  then show ?case by simp
next
  case (Suc d)
  have step: "has_cycle_loop h (node_at h p i) (node_at h p (2 * i)) =
           (if node_at h p (Suc i) = node_at h p (2 * Suc i) then Some (Inr True)
            else has_cycle_loop h (node_at h p (Suc i)) (node_at h p (2 * Suc i)))"
    using assms(1) by (intro has_cycle_loop_step) blast
  show ?case
  proof (cases "Suc i = T")
    case True
    then show ?thesis using step assms(2) by (simp del: node_at.simps)
  next
    case False
    then have lt: "Suc i < T" using Suc.prems(2) by (simp del: node_at.simps)
    then have ne: "node_at h p (Suc i) \<noteq> node_at h p (2 * Suc i)"
      by (intro Suc.prems(1)[rule_format] conjI lessI)
    have "has_cycle_loop h (node_at h p (Suc i)) (node_at h p (2 * Suc i)) = Some (Inr True)"
    proof (rule Suc.hyps(1))
      show "d = T - Suc i" using Suc.hyps(2) by (simp del: node_at.simps)
      show "\<forall>t. Suc i < t \<and> t < T \<longrightarrow> node_at h p t \<noteq> node_at h p (2 * t)"
        using Suc.prems(1) by (simp del: node_at.simps)
      show "Suc i < T" by (rule lt)
    qed
    then show ?thesis using step ne by (simp del: node_at.simps)
  qed
qed

lemma find_meeting_loop_meets:
  assumes "\<forall>n. node_at h p n \<noteq> None"
    "node_at h p T = node_at h p (2 * T)"
    "\<forall>t. i < t \<and> t < T \<longrightarrow> node_at h p t \<noteq> node_at h p (2 * t)"
    "i < T"
  shows "find_meeting_loop h (node_at h p i) (node_at h p (2 * i)) = Some (Inr (Broke (node_at h p T)))"
  using assms(3,4)
proof (induction "T - i" arbitrary: i)
  case 0
  then show ?case by simp
next
  case (Suc d)
  have step: "find_meeting_loop h (node_at h p i) (node_at h p (2 * i)) =
           (if node_at h p (Suc i) = node_at h p (2 * Suc i) then Some (Inr (Broke (node_at h p (Suc i))))
            else find_meeting_loop h (node_at h p (Suc i)) (node_at h p (2 * Suc i)))"
    using assms(1) by (intro find_meeting_loop_step) blast
  show ?case
  proof (cases "Suc i = T")
    case True
    then show ?thesis using step assms(2) by (simp del: node_at.simps)
  next
    case False
    then have lt: "Suc i < T" using Suc.prems(2) by (simp del: node_at.simps)
    then have ne: "node_at h p (Suc i) \<noteq> node_at h p (2 * Suc i)"
      by (intro Suc.prems(1)[rule_format] conjI lessI)
    have "find_meeting_loop h (node_at h p (Suc i)) (node_at h p (2 * Suc i)) =
        Some (Inr (Broke (node_at h p T)))"
    proof (rule Suc.hyps(1))
      show "d = T - Suc i" using Suc.hyps(2) by (simp del: node_at.simps)
      show "\<forall>t. Suc i < t \<and> t < T \<longrightarrow> node_at h p t \<noteq> node_at h p (2 * t)"
        using Suc.prems(1) by (simp del: node_at.simps)
      show "Suc i < T" by (rule lt)
    qed
    then show ?thesis using step ne by (simp del: node_at.simps)
  qed
qed

lemma find_start_loop_reaches:
  assumes "\<forall>n. node_at h p n \<noteq> None"
    "\<forall>j < m. node_at h p j \<noteq> node_at h p (T + j)"
    "node_at h p m = node_at h p (T + m)"
    "j \<le> m"
  shows "find_start_loop h (node_at h p j) (node_at h p (T + j)) = Some (Inr (node_at h p m))"
  using assms(4)
proof (induction "m - j" arbitrary: j)
  case 0
  then have "j = m" by (simp del: node_at.simps)
  then show ?case
    using find_start_loop_step[of h p m "T + m"] assms(1,3) by (simp del: node_at.simps)
next
  case (Suc d)
  then have lt: "j < m" by (simp del: node_at.simps)
  then have ne: "node_at h p j \<noteq> node_at h p (T + j)" using assms(2) by (simp del: node_at.simps)
  have "find_start_loop h (node_at h p (Suc j)) (node_at h p (T + Suc j)) = Some (Inr (node_at h p m))"
    using Suc.hyps(2) lt by (intro Suc.hyps(1)) simp_all
  then show ?case
    using find_start_loop_step[of h p j "T + j"] assms(1) ne by (simp del: node_at.simps)
qed

lemma lasso_result:
  assumes "lasso h head m l"
  shows "has_cycle h head = Some (Inr True) \<and>
         find_cycle_start h head = Some (Inr (node_at h head m))"
proof -
  have l: "0 < l" using assms by (simp add: lasso_def)
  have nn: "\<forall>n. node_at h head n \<noteq> None"
    using lasso_never_None[OF assms] by blast
  define T where "T = (LEAST t. 0 < t \<and> node_at h head t = node_at h head (2 * t))"
  have T: "0 < T \<and> node_at h head T = node_at h head (2 * T)"
    unfolding T_def using lasso_meeting_exists[OF assms] by (rule LeastI_ex)
  have least: "\<forall>t. 0 < t \<and> t < T \<longrightarrow> node_at h head t \<noteq> node_at h head (2 * t)"
  proof (intro allI impI)
    fix t assume a: "0 < t \<and> t < T"
    then have "\<not> (0 < t \<and> node_at h head t = node_at h head (2 * t))"
      unfolding T_def using not_less_Least by blast
    with a show "node_at h head t \<noteq> node_at h head (2 * t)" by blast
  qed
  from nn obtain a where a: "head = Some a"
    using nn[rule_format, of 0] by auto
  from nn obtain b where b: "nxt (h a) = Some b"
    using nn[rule_format, of 1] a by auto
  have hc: "has_cycle_loop h (node_at h head 0) (node_at h head (2 * 0)) = Some (Inr True)"
    using nn T[THEN conjunct2] least T[THEN conjunct1] by (rule has_cycle_loop_meets)
  have fm: "find_meeting_loop h (node_at h head 0) (node_at h head (2 * 0)) =
      Some (Inr (Broke (node_at h head T)))"
    using nn T[THEN conjunct2] least T[THEN conjunct1] by (rule find_meeting_loop_meets)
  have "canon m l T = canon m l (2 * T)"
    using T lasso_eq_iff[OF assms] by blast
  then have mT: "m \<le> T" and dv: "l dvd T"
    using canon_meet[OF l T[THEN conjunct1]] by blast+
  have tail: "\<forall>j < m. node_at h head j \<noteq> node_at h head (T + j)"
  proof (intro allI impI)
    fix j assume "j < m"
    then have "canon m l j \<noteq> canon m l (T + j)" using mT by (simp add: canon_def)
    then show "node_at h head j \<noteq> node_at h head (T + j)"
      by (simp only: lasso_eq_iff[OF assms] not_False_eq_True)
  qed
  have "(T + m - m) mod l = 0" using dv by simp
  then have "canon m l m = canon m l (T + m)" by (simp add: canon_def)
  then have entry: "node_at h head m = node_at h head (T + m)"
    by (simp only: lasso_eq_iff[OF assms])
  have fs: "find_start_loop h (node_at h head 0) (node_at h head (T + 0)) =
      Some (Inr (node_at h head m))"
    using nn tail entry by (rule find_start_loop_reaches) simp
  have 1: "has_cycle h head = Some (Inr True)"
    using hc a b by (simp add: has_cycle_def)
  have 2: "find_cycle_start h head = Some (Inr (node_at h head m))"
    using fm fs a b by (simp add: find_cycle_start_def del: node_at.simps(2))
  from 1 2 show ?thesis by blast
qed

subsection \<open>A chain that ends\<close>

lemma ending_chain_distinct:
  assumes "node_at h p N = None" "i < j" "node_at h p j \<noteq> None"
  shows "node_at h p i \<noteq> node_at h p j"
proof
  assume eq: "node_at h p i = node_at h p j"
  have shift: "node_at h p (i + d) = node_at h p (j + d)" for d
    using eq by (simp only: node_at_add)
  have "node_at h p n \<noteq> None" for n
  proof (induction n rule: less_induct)
    case (less n)
    show ?case
    proof (cases "n \<le> j")
      case True
      with assms(3) show ?thesis by (rule node_at_Some_earlier)
    next
      case False
      then have "n = j + (n - j)" by simp
      then have "node_at h p n = node_at h p (j + (n - j))" by simp
      also have "\<dots> = node_at h p (i + (n - j))" by (rule shift[symmetric])
      finally have "node_at h p n = node_at h p (i + (n - j))" .
      moreover have "i + (n - j) < n" using False assms(2) by simp
      ultimately show ?thesis using less.IH by simp
    qed
  qed
  with assms(1) show False by blast
qed

lemma ending_chain_step_differs:
  assumes "node_at h p N = None" "node_at h p (Suc (2 * i)) \<noteq> None"
  shows "node_at h p (Suc i) \<noteq> node_at h p (2 * Suc i)"
proof (cases "node_at h p (2 * Suc i) = None")
  case True
  have "node_at h p (Suc i) \<noteq> None"
    using assms(2) by (rule node_at_Some_earlier) simp
  with True show ?thesis by (simp del: node_at.simps)
next
  case False
  with assms(1) show ?thesis by (intro ending_chain_distinct[of h p N]) simp_all
qed

lemma has_cycle_loop_ends:
  assumes "node_at h p N = None"
  shows "has_cycle_loop h (node_at h p i) (node_at h p (2 * i)) = Some (Inr False)"
proof (induction "N - 2 * i" arbitrary: i rule: less_induct)
  case less
  show ?case
  proof (cases "node_at h p (Suc (2 * i)) = None")
    case True
    then show ?thesis by (rule has_cycle_loop_exit)
  next
    case False
    then have lt: "Suc (2 * i) < N"
      using assms node_at_None_later[of h p N "Suc (2 * i)"] by (meson not_le_imp_less)
    have ne: "node_at h p (Suc i) \<noteq> node_at h p (2 * Suc i)"
      using assms False by (rule ending_chain_step_differs)
    have "has_cycle_loop h (node_at h p (Suc i)) (node_at h p (2 * Suc i)) = Some (Inr False)"
      using lt by (intro less) simp
    then show ?thesis
      by (simp only: has_cycle_loop_step[OF False] ne if_False)
  qed
qed

lemma find_meeting_loop_ends:
  assumes "node_at h p N = None"
  shows "find_meeting_loop h (node_at h p i) (node_at h p (2 * i)) = Some (Inr Exhausted)"
proof (induction "N - 2 * i" arbitrary: i rule: less_induct)
  case less
  show ?case
  proof (cases "node_at h p (Suc (2 * i)) = None")
    case True
    then show ?thesis by (rule find_meeting_loop_exit)
  next
    case False
    then have lt: "Suc (2 * i) < N"
      using assms node_at_None_later[of h p N "Suc (2 * i)"] by (meson not_le_imp_less)
    have ne: "node_at h p (Suc i) \<noteq> node_at h p (2 * Suc i)"
      using assms False by (rule ending_chain_step_differs)
    have "find_meeting_loop h (node_at h p (Suc i)) (node_at h p (2 * Suc i)) = Some (Inr Exhausted)"
      using lt by (intro less) simp
    then show ?thesis
      by (simp only: find_meeting_loop_step[OF False] ne if_False)
  qed
qed

lemma ending_result:
  assumes "node_at h head N = None"
  shows "has_cycle h head = Some (Inr False) \<and> find_cycle_start h head = Some (Inr None)"
proof -
  have hc: "has_cycle_loop h (node_at h head 0) (node_at h head (2 * 0)) = Some (Inr False)"
    using assms by (rule has_cycle_loop_ends)
  have fm: "find_meeting_loop h (node_at h head 0) (node_at h head (2 * 0)) = Some (Inr Exhausted)"
    using assms by (rule find_meeting_loop_ends)
  show ?thesis
    using hc fm by (auto simp: has_cycle_def find_cycle_start_def split: option.splits)
qed

text \<open>
  C5. If the chain from \<open>head\<close> runs through \<open>m\<close> nodes into a cycle of \<open>l\<close> nodes
  whose first node is \<open>k\<close>, then \<open>has_cycle\<close> returns True and
  \<open>find_cycle_start\<close> returns node \<open>k\<close>. If the chain ends (some position holds
  \<open>None\<close>), then \<open>has_cycle\<close> returns False and \<open>find_cycle_start\<close> returns
  \<open>None\<close>. Both calls return: the result is \<open>Some\<close>, and no AttributeError occurs.
\<close>

theorem floyd_cycle_detection:
  "(lasso h head m l \<and> node_at h head m = Some k \<longrightarrow>
      has_cycle h head = Some (Inr True) \<and> find_cycle_start h head = Some (Inr (Some k))) \<and>
   (node_at h head n = None \<longrightarrow>
      has_cycle h head = Some (Inr False) \<and> find_cycle_start h head = Some (Inr None))"
  using lasso_result[of h head m l] ending_result[of h head n] by auto

theorem floyd_cycle_detection_witness:
  "lasso test_heap_cycle (Some 1) 1 2 \<and> node_at test_heap_cycle (Some 1) 1 = Some 2 \<and>
   has_cycle test_heap_cycle (Some 1) = Some (Inr True) \<and>
   find_cycle_start test_heap_cycle (Some 1) = Some (Inr (Some 2)) \<and>
   node_at test_heap_no_cycle (Some 1) 3 = None \<and>
   has_cycle test_heap_no_cycle (Some 1) = Some (Inr False) \<and>
   find_cycle_start test_heap_no_cycle (Some 1) = Some (Inr None)"
proof -
  have n: "node_at test_heap_cycle (Some 1) 0 = Some 1"
    "node_at test_heap_cycle (Some 1) (Suc 0) = Some 2"
    "node_at test_heap_cycle (Some 1) (Suc (Suc 0)) = Some 3"
    "node_at test_heap_cycle (Some 1) (Suc (Suc (Suc 0))) = Some 2"
    by (simp_all add: test_heap_cycle_def)
  have "\<forall>i < Suc (Suc (Suc 0)). node_at test_heap_cycle (Some 1) i \<noteq> None"
    by (simp only: All_less_Suc n) simp
  moreover have "[0 ..< Suc (Suc (Suc 0))] = [0, Suc 0, Suc (Suc 0)]"
    by (simp add: upt_rec)
  ultimately have h1: "lasso test_heap_cycle (Some 1) 1 2"
    unfolding lasso_def using n by (simp add: eval_nat_numeral del: node_at.simps)
  have h2: "node_at test_heap_cycle (Some 1) 1 = Some 2"
    using n by simp
  have h3: "node_at test_heap_no_cycle (Some 1) 3 = None"
    by (simp add: test_heap_no_cycle_def eval_nat_numeral)
  show ?thesis
    using h1 h2 h3
      floyd_cycle_detection [of test_heap_cycle "Some 1" 1 2 2 3]
      floyd_cycle_detection [of test_heap_no_cycle "Some 1" 1 2 2 3]
    by blast
qed

section \<open>Properties of graph\_traversal.py\<close>

lemma dfs_visited_grows:
  "dfs_recursive_from frames graph start visited = Inr (r, visited') \<Longrightarrow> visited \<subseteq> visited'"
  "dfs_neighbors frames graph ns visited result = Inr (r, visited') \<Longrightarrow> visited \<subseteq> visited'"
proof (induction frames graph start visited and frames graph ns visited result
    arbitrary: r visited' and r visited'
    rule: dfs_recursive_from_dfs_neighbors.induct)
  case (1 graph start visited)
  then show ?case by simp
next
  case (2 frames graph start visited)
  then show ?case by (auto split: option.splits)
next
  case (3 frames graph visited result)
  then show ?case by simp
next
  case (4 frames graph neighbor rest visited result)
  show ?case
  proof (cases "neighbor \<notin> visited")
    case True
    with "4.prems" obtain sub v1 where
      s: "dfs_recursive_from frames graph neighbor visited = Inr (sub, v1)"
      and n: "dfs_neighbors frames graph rest v1 (result @ sub) = Inr (r, visited')"
      by (auto split: sum.splits)
    have "visited \<subseteq> v1" using True s by (rule "4.IH"(1))
    moreover have "v1 \<subseteq> visited'" using True s refl n by (rule "4.IH"(2))
    ultimately show ?thesis by simp
  next
    case False
    with "4.prems" have "dfs_neighbors frames graph rest visited result = Inr (r, visited')"
      by simp
    with False show ?thesis by (rule "4.IH"(3))
  qed
qed

lemma dfs_visited_keys:
  "dfs_recursive_from frames graph start visited = Inr (r, visited') \<Longrightarrow>
     visited \<subseteq> fmdom' graph \<Longrightarrow> visited' \<subseteq> fmdom' graph"
  "dfs_neighbors frames graph ns visited result = Inr (r, visited') \<Longrightarrow>
     visited \<subseteq> fmdom' graph \<Longrightarrow> visited' \<subseteq> fmdom' graph"
proof (induction frames graph start visited and frames graph ns visited result
    arbitrary: r visited' and r visited'
    rule: dfs_recursive_from_dfs_neighbors.induct)
  case (1 graph start visited)
  then show ?case by simp
next
  case (2 frames graph start visited)
  from "2.prems"(1) obtain ns where ns: "fmlookup graph start = Some ns"
    and l: "dfs_neighbors frames graph ns (insert start visited) [start] = Inr (r, visited')"
    by (auto split: option.splits)
  have "insert start visited \<subseteq> fmdom' graph"
    using ns "2.prems"(2) by (simp add: fmdom'I)
  with l show ?case by (rule "2.IH"[OF ns])
next
  case (3 frames graph visited result)
  then show ?case by simp
next
  case (4 frames graph neighbor rest visited result)
  show ?case
  proof (cases "neighbor \<notin> visited")
    case True
    with "4.prems"(1) obtain sub v1 where
      s: "dfs_recursive_from frames graph neighbor visited = Inr (sub, v1)"
      and n: "dfs_neighbors frames graph rest v1 (result @ sub) = Inr (r, visited')"
      by (auto split: sum.splits)
    have "v1 \<subseteq> fmdom' graph" using True s "4.prems"(2) by (rule "4.IH"(1))
    with n show ?thesis by (rule "4.IH"(2)[OF True s refl])
  next
    case False
    with "4.prems"(1) have "dfs_neighbors frames graph rest visited result = Inr (r, visited')"
      by simp
    then show ?thesis using "4.prems"(2) by (rule "4.IH"(3)[OF False])
  qed
qed

lemma push_unvisited_filter:
  "push_unvisited xs visited stack = stack @ filter (\<lambda>n. n \<notin> visited) xs"
  by (induction xs arbitrary: stack) auto

subsection \<open>The iterative loop, with the top of the stack in front\<close>

lemma dfs_iterative_loop_empty: "dfs_iterative_loop graph [] visited result = Inr result"
  by (subst dfs_iterative_loop.simps) simp

lemma dfs_iterative_loop_skip:
  assumes "v \<in> visited"
  shows "dfs_iterative_loop graph (rev (v # todo)) visited result =
         dfs_iterative_loop graph (rev todo) visited result"
  using assms by (subst dfs_iterative_loop.simps) (simp del: dfs_iterative_loop.simps)

lemma dfs_iterative_loop_missing:
  assumes "v \<notin> visited" "fmlookup graph v = None"
  shows "dfs_iterative_loop graph (rev (v # todo)) visited result = Inl KeyError"
  using assms by (subst dfs_iterative_loop.simps) (simp del: dfs_iterative_loop.simps)

lemma dfs_iterative_loop_visit:
  assumes "v \<notin> visited" "fmlookup graph v = Some ns"
  shows "dfs_iterative_loop graph (rev (v # todo)) visited result =
         dfs_iterative_loop graph (rev (filter (\<lambda>n. n \<notin> insert v visited) ns @ todo))
           (insert v visited) (result @ [v])"
  using assms
  by (subst dfs_iterative_loop.simps)
     (simp add: push_unvisited_filter rev_filter del: dfs_iterative_loop.simps)

subsection \<open>The stack holds what the recursion still has to do\<close>

lemma dfs_simulation:
  "start \<notin> visited \<Longrightarrow> dfs_recursive_from frames graph start visited \<noteq> Inl RecursionError \<Longrightarrow>
     dfs_iterative_loop graph (rev (start # todo)) visited acc =
       (case dfs_recursive_from frames graph start visited of
          Inl e \<Rightarrow> Inl e
        | Inr (r, visited') \<Rightarrow> dfs_iterative_loop graph (rev todo) visited' (acc @ r))"
  "seen \<subseteq> visited \<Longrightarrow> dfs_neighbors frames graph ns visited result \<noteq> Inl RecursionError \<Longrightarrow>
     dfs_iterative_loop graph (rev (filter (\<lambda>n. n \<notin> seen) ns @ todo)) visited (acc @ result) =
       (case dfs_neighbors frames graph ns visited result of
          Inl e \<Rightarrow> Inl e
        | Inr (r, visited') \<Rightarrow> dfs_iterative_loop graph (rev todo) visited' (acc @ r))"
proof (induction frames graph start visited and frames graph ns visited result
    arbitrary: todo acc and todo acc seen
    rule: dfs_recursive_from_dfs_neighbors.induct)
  case (1 graph start visited)
  then show ?case by simp
next
  case (2 frames graph start visited)
  show ?case
  proof (cases "fmlookup graph start")
    case None
    have "dfs_iterative_loop graph (rev (start # todo)) visited acc = Inl KeyError"
      using "2.prems"(1) None by (rule dfs_iterative_loop_missing)
    then show ?thesis
      using None by (simp del: dfs_iterative_loop.simps)
  next
    case (Some ns)
    have ok: "dfs_neighbors frames graph ns (insert start visited) [start] \<noteq> Inl RecursionError"
      using "2.prems"(2) Some by simp
    have "dfs_iterative_loop graph (rev (start # todo)) visited acc =
        dfs_iterative_loop graph (rev (filter (\<lambda>n. n \<notin> insert start visited) ns @ todo))
           (insert start visited) (acc @ [start])"
      using "2.prems"(1) Some by (rule dfs_iterative_loop_visit)
    also have "\<dots> = (case dfs_neighbors frames graph ns (insert start visited) [start] of
          Inl e \<Rightarrow> Inl e
        | Inr (r, visited') \<Rightarrow> dfs_iterative_loop graph (rev todo) visited' (acc @ r))"
      using ok by (intro "2.IH"[OF Some]) simp
    finally show ?thesis using Some by (simp del: dfs_iterative_loop.simps)
  qed
next
  case (3 frames graph visited result)
  show ?case by (simp del: dfs_iterative_loop.simps)
next
  case (4 frames graph neighbor rest visited result)
  show ?case
  proof (cases "neighbor \<notin> visited")
    case True
    then have ns: "neighbor \<notin> seen" using "4.prems"(1) by blast
    have ok1: "dfs_recursive_from frames graph neighbor visited \<noteq> Inl RecursionError"
      using "4.prems"(2) True by (auto split: sum.splits)
    have "dfs_iterative_loop graph (rev (filter (\<lambda>n. n \<notin> seen) (neighbor # rest) @ todo)) visited (acc @ result) =
        dfs_iterative_loop graph (rev (neighbor # (filter (\<lambda>n. n \<notin> seen) rest @ todo))) visited (acc @ result)"
      using ns by simp
    also have "\<dots> = (case dfs_recursive_from frames graph neighbor visited of
          Inl e \<Rightarrow> Inl e
        | Inr (r, visited') \<Rightarrow>
            dfs_iterative_loop graph (rev (filter (\<lambda>n. n \<notin> seen) rest @ todo)) visited' ((acc @ result) @ r))"
      using True ok1 by (rule "4.IH"(1)[OF True])
    also have "\<dots> = (case dfs_recursive_from frames graph neighbor visited of
          Inl e \<Rightarrow> Inl e
        | Inr (sub, visited') \<Rightarrow>
            (case dfs_neighbors frames graph rest visited' (result @ sub) of
               Inl e \<Rightarrow> Inl e
             | Inr (r, visited'') \<Rightarrow> dfs_iterative_loop graph (rev todo) visited'' (acc @ r)))"
    proof (cases "dfs_recursive_from frames graph neighbor visited")
      case (Inl e)
      then show ?thesis by simp
    next
      case (Inr p)
      obtain sub v1 where p: "p = (sub, v1)" by (cases p)
      have "visited \<subseteq> v1" using Inr p dfs_visited_grows(1) by blast
      then have sv: "seen \<subseteq> v1" using "4.prems"(1) by blast
      have ok2: "dfs_neighbors frames graph rest v1 (result @ sub) \<noteq> Inl RecursionError"
        using "4.prems"(2) True Inr p by simp
      have "dfs_iterative_loop graph (rev (filter (\<lambda>n. n \<notin> seen) rest @ todo)) v1 (acc @ (result @ sub)) =
          (case dfs_neighbors frames graph rest v1 (result @ sub) of
               Inl e \<Rightarrow> Inl e
             | Inr (r, visited'') \<Rightarrow> dfs_iterative_loop graph (rev todo) visited'' (acc @ r))"
        using Inr p sv ok2 by (intro "4.IH"(2)[OF True]) simp_all
      then show ?thesis using Inr p by (simp del: dfs_iterative_loop.simps)
    qed
    finally show ?thesis using True
      by (simp del: dfs_iterative_loop.simps split: sum.splits)
  next
    case False
    have ok3: "dfs_neighbors frames graph rest visited result \<noteq> Inl RecursionError"
      using "4.prems"(2) False by simp
    have "dfs_iterative_loop graph (rev (filter (\<lambda>n. n \<notin> seen) (neighbor # rest) @ todo)) visited (acc @ result) =
        dfs_iterative_loop graph (rev (filter (\<lambda>n. n \<notin> seen) rest @ todo)) visited (acc @ result)"
    proof (cases "neighbor \<in> seen")
      case True
      then show ?thesis by simp
    next
      case ns: False
      have "dfs_iterative_loop graph (rev (neighbor # (filter (\<lambda>n. n \<notin> seen) rest @ todo))) visited (acc @ result) =
          dfs_iterative_loop graph (rev (filter (\<lambda>n. n \<notin> seen) rest @ todo)) visited (acc @ result)"
        using False by (intro dfs_iterative_loop_skip) simp
      then show ?thesis using ns by simp
    qed
    also have "\<dots> = (case dfs_neighbors frames graph rest visited result of
          Inl e \<Rightarrow> Inl e
        | Inr (r, visited') \<Rightarrow> dfs_iterative_loop graph (rev todo) visited' (acc @ r))"
      using "4.prems"(1) ok3 by (rule "4.IH"(3)[OF False])
    finally show ?thesis using False by (simp del: dfs_iterative_loop.simps)
  qed
qed

lemma dfs_iterative_eq_recursive:
  assumes "dfs_recursive frames graph start \<noteq> Inl RecursionError"
  shows "dfs_iterative graph start = dfs_recursive frames graph start"
proof -
  have ok: "dfs_recursive_from frames graph start {} \<noteq> Inl RecursionError"
    using assms by (auto simp: dfs_recursive_def split: sum.splits)
  have "dfs_iterative_loop graph (rev (start # [])) {} [] =
       (case dfs_recursive_from frames graph start {} of
          Inl e \<Rightarrow> Inl e
        | Inr (r, visited') \<Rightarrow> dfs_iterative_loop graph (rev []) visited' ([] @ r))"
    using ok by (intro dfs_simulation(1)) simp
  then show ?thesis
    unfolding dfs_iterative_def dfs_recursive_def
    by (auto simp: dfs_iterative_loop_empty simp del: dfs_iterative_loop.simps split: sum.splits)
qed

subsection \<open>Frames enough for every key\<close>

lemma dfs_enough_frames:
  "start \<notin> visited \<Longrightarrow> visited \<subseteq> fmdom' graph \<Longrightarrow> card (fmdom' graph - visited) < frames \<Longrightarrow>
     dfs_recursive_from frames graph start visited \<noteq> Inl RecursionError"
  "visited \<subseteq> fmdom' graph \<Longrightarrow> card (fmdom' graph - visited) < frames \<Longrightarrow>
     dfs_neighbors frames graph ns visited result \<noteq> Inl RecursionError"
proof (induction frames graph start visited and frames graph ns visited result
    rule: dfs_recursive_from_dfs_neighbors.induct)
  case (1 graph start visited)
  then show ?case by simp
next
  case (2 frames graph start visited)
  show ?case
  proof (cases "fmlookup graph start")
    case None
    then show ?thesis by simp
  next
    case (Some ns)
    then have k: "start \<in> fmdom' graph" by (simp add: fmdom'I)
    have sub: "insert start visited \<subseteq> fmdom' graph" using k "2.prems"(2) by simp
    have "fmdom' graph - insert start visited \<subset> fmdom' graph - visited"
      using k "2.prems"(1) by auto
    then have "card (fmdom' graph - insert start visited) < card (fmdom' graph - visited)"
      by (intro psubset_card_mono) simp_all
    then have "card (fmdom' graph - insert start visited) < frames"
      using "2.prems"(3) by simp
    with sub have "dfs_neighbors frames graph ns (insert start visited) [start] \<noteq> Inl RecursionError"
      by (rule "2.IH"[OF Some])
    then show ?thesis using Some by simp
  qed
next
  case (3 frames graph visited result)
  show ?case by simp
next
  case (4 frames graph neighbor rest visited result)
  show ?case
  proof (cases "neighbor \<notin> visited")
    case True
    have ok1: "dfs_recursive_from frames graph neighbor visited \<noteq> Inl RecursionError"
      using True "4.prems" by (rule "4.IH"(1)[OF True])
    show ?thesis
    proof (cases "dfs_recursive_from frames graph neighbor visited")
      case (Inl e)
      then show ?thesis using ok1 True by simp
    next
      case (Inr p)
      obtain sub v1 where p: "p = (sub, v1)" by (cases p)
      have s: "dfs_recursive_from frames graph neighbor visited = Inr (sub, v1)"
        using Inr p by simp
      have g: "visited \<subseteq> v1" using s by (rule dfs_visited_grows(1))
      have k: "v1 \<subseteq> fmdom' graph" using s "4.prems"(1) by (rule dfs_visited_keys(1))
      have "card (fmdom' graph - v1) \<le> card (fmdom' graph - visited)"
        using g by (intro card_mono) auto
      then have "card (fmdom' graph - v1) < frames" using "4.prems"(2) by simp
      with k have "dfs_neighbors frames graph rest v1 (result @ sub) \<noteq> Inl RecursionError"
        by (rule "4.IH"(2)[OF True s refl])
      then show ?thesis using True s by simp
    qed
  next
    case False
    have "dfs_neighbors frames graph rest visited result \<noteq> Inl RecursionError"
      using "4.prems" by (rule "4.IH"(3)[OF False])
    then show ?thesis using False by simp
  qed
qed

lemma dfs_recursive_enough_frames:
  assumes "card (fmdom' graph) < frames"
  shows "dfs_recursive frames graph start \<noteq> Inl RecursionError"
proof -
  have "dfs_recursive_from frames graph start {} \<noteq> Inl RecursionError"
    using assms by (intro dfs_enough_frames(1)) simp_all
  then show ?thesis by (auto simp: dfs_recursive_def split: sum.splits)
qed

lemma dfs_iterative_no_recursion_error: "dfs_iterative graph start \<noteq> Inl RecursionError"
proof -
  have ok: "dfs_recursive (Suc (card (fmdom' graph))) graph start \<noteq> Inl RecursionError"
    by (rule dfs_recursive_enough_frames) simp
  then have "dfs_iterative graph start = dfs_recursive (Suc (card (fmdom' graph))) graph start"
    by (rule dfs_iterative_eq_recursive)
  with ok show ?thesis by simp
qed

subsection \<open>No KeyError when every reachable vertex is a key\<close>

lemma dfs_recursive_no_key_error:
  "start \<in> reachable graph s \<Longrightarrow> reachable graph s \<subseteq> fmdom' graph \<Longrightarrow>
     dfs_recursive_from frames graph start visited \<noteq> Inl KeyError"
  "set ns \<subseteq> reachable graph s \<Longrightarrow> reachable graph s \<subseteq> fmdom' graph \<Longrightarrow>
     dfs_neighbors frames graph ns visited result \<noteq> Inl KeyError"
proof (induction frames graph start visited and frames graph ns visited result
    rule: dfs_recursive_from_dfs_neighbors.induct)
  case (1 graph start visited)
  show ?case by simp
next
  case (2 frames graph start visited)
  then have "start \<in> fmdom' graph" by blast
  then obtain ns where ns: "fmlookup graph start = Some ns" by (auto simp: fmlookup_dom'_iff)
  have "set ns \<subseteq> reachable graph s"
    using "2.prems"(1) ns by (auto intro: reachable_step)
  then have "dfs_neighbors frames graph ns (insert start visited) [start] \<noteq> Inl KeyError"
    using "2.prems"(2) by (rule "2.IH"[OF ns])
  then show ?case using ns by simp
next
  case (3 frames graph visited result)
  show ?case by simp
next
  case (4 frames graph neighbor rest visited result)
  have n: "neighbor \<in> reachable graph s" and r: "set rest \<subseteq> reachable graph s"
    using "4.prems"(1) by simp_all
  show ?case
  proof (cases "neighbor \<notin> visited")
    case True
    have ok1: "dfs_recursive_from frames graph neighbor visited \<noteq> Inl KeyError"
      using n "4.prems"(2) by (rule "4.IH"(1)[OF True])
    show ?thesis
    proof (cases "dfs_recursive_from frames graph neighbor visited")
      case (Inl e)
      then show ?thesis using ok1 True by simp
    next
      case (Inr p)
      obtain sub v1 where p: "p = (sub, v1)" by (cases p)
      have s: "dfs_recursive_from frames graph neighbor visited = Inr (sub, v1)"
        using Inr p by simp
      have "dfs_neighbors frames graph rest v1 (result @ sub) \<noteq> Inl KeyError"
        using r "4.prems"(2) by (rule "4.IH"(2)[OF True s refl])
      then show ?thesis using True s by simp
    qed
  next
    case False
    have "dfs_neighbors frames graph rest visited result \<noteq> Inl KeyError"
      using r "4.prems"(2) by (rule "4.IH"(3)[OF False])
    then show ?thesis using False by simp
  qed
qed

lemma dfs_recursive_errors:
  "dfs_recursive_from frames graph start visited = Inl e \<Longrightarrow> e = KeyError \<or> e = RecursionError"
  "dfs_neighbors frames graph ns visited result = Inl e \<Longrightarrow> e = KeyError \<or> e = RecursionError"
proof (induction frames graph start visited and frames graph ns visited result
    rule: dfs_recursive_from_dfs_neighbors.induct)
  case (1 graph start visited)
  then show ?case by simp
next
  case (2 frames graph start visited)
  then show ?case by (auto split: option.splits)
next
  case (3 frames graph visited result)
  then show ?case by simp
next
  case (4 frames graph neighbor rest visited result)
  then show ?case by (auto split: if_splits sum.splits)
qed

lemma dfs_both_return:
  assumes "card (fmdom' graph) < frames" "reachable graph start \<subseteq> fmdom' graph"
  shows "\<exists>order. dfs_recursive frames graph start = Inr order \<and> dfs_iterative graph start = Inr order"
proof -
  have ok: "dfs_recursive frames graph start \<noteq> Inl RecursionError"
    using assms(1) by (rule dfs_recursive_enough_frames)
  then have eq: "dfs_iterative graph start = dfs_recursive frames graph start"
    by (rule dfs_iterative_eq_recursive)
  have nk: "dfs_recursive_from frames graph start {} \<noteq> Inl KeyError"
    using assms(2) by (intro dfs_recursive_no_key_error(1)[of start graph start] reachable_start)
  have nr: "dfs_recursive_from frames graph start {} \<noteq> Inl RecursionError"
    using ok by (auto simp: dfs_recursive_def split: sum.splits)
  obtain r v where "dfs_recursive_from frames graph start {} = Inr (r, v)"
  proof (cases "dfs_recursive_from frames graph start {}")
    case (Inl e)
    then have "e = KeyError \<or> e = RecursionError" by (rule dfs_recursive_errors(1))
    with Inl nk nr show ?thesis by auto
  next
    case (Inr p)
    then show ?thesis using that by (cases p) simp
  qed
  then have "dfs_recursive frames graph start = Inr r"
    by (simp add: dfs_recursive_def)
  with eq show ?thesis by simp
qed

subsection \<open>The two traversals agree\<close>

text \<open>
  C6. \<open>dfs_iterative\<close> returns what \<open>dfs_recursive\<close> returns, on every graph and
  start vertex on which \<open>dfs_recursive\<close> stays within the recursion limit: pushing the
  neighbours in reverse order puts the first neighbour on top of the stack, and a vertex
  is skipped when popped exactly if the recursive loop would skip it. On a vertex that is
  not a key both raise KeyError, the same way. The recursion is never deeper than the
  graph has keys, plus one call that finds a vertex missing: when the limit leaves more
  frames than the graph has keys, \<open>dfs_recursive\<close> does not raise RecursionError, and
  when moreover every vertex reachable from the start is a key, both return a vertex
  sequence, the same one.
\<close>

theorem dfs_iterative_matches_recursive:
  "(dfs_recursive frames graph start \<noteq> Inl RecursionError \<longrightarrow>
      dfs_iterative graph start = dfs_recursive frames graph start) \<and>
   (card (fmdom' graph) < frames \<longrightarrow> dfs_recursive frames graph start \<noteq> Inl RecursionError) \<and>
   (card (fmdom' graph) < frames \<and> reachable graph start \<subseteq> fmdom' graph \<longrightarrow>
      (\<exists>order. dfs_recursive frames graph start = Inr order \<and> dfs_iterative graph start = Inr order))"
proof (intro conjI impI)
  assume "dfs_recursive frames graph start \<noteq> Inl RecursionError"
  then show "dfs_iterative graph start = dfs_recursive frames graph start"
    by (rule dfs_iterative_eq_recursive)
next
  assume "card (fmdom' graph) < frames"
  then show "dfs_recursive frames graph start \<noteq> Inl RecursionError"
    by (rule dfs_recursive_enough_frames)
next
  assume "card (fmdom' graph) < frames \<and> reachable graph start \<subseteq> fmdom' graph"
  then show "\<exists>order. dfs_recursive frames graph start = Inr order \<and> dfs_iterative graph start = Inr order"
    using dfs_both_return by blast
qed

theorem dfs_iterative_matches_recursive_witness:
  "card (fmdom' example_graph) < 1000 \<and>
   reachable example_graph 0 \<subseteq> fmdom' example_graph \<and>
   dfs_recursive 1000 example_graph 0 = Inr [0, 1, 3, 4, 2, 5, 6] \<and>
   dfs_iterative example_graph 0 = Inr [0, 1, 3, 4, 2, 5, 6]"
proof -
  have lk: "fmlookup example_graph =
      map_of [(0, [1, 2]), (1, [0, 3, 4]), (2, [0, 5, 6]), (3, [1]), (4, [1]), (5, [2]), (6, [2])]"
    by (simp only: example_graph_def fmlookup_of_list)
  have keys: "fmdom' example_graph = {0, 1, 2, 3, 4, 5, 6}"
    by (auto simp: fmlookup_dom'_iff lk split: if_splits)
  have h1: "card (fmdom' example_graph) < 1000" by (simp add: keys)
  have "v \<in> {0, 1, 2, 3, 4, 5, 6}" if "v \<in> reachable example_graph 0" for v
    using that
  proof (induction rule: reachable.induct)
    case reachable_start
    show ?case by simp
  next
    case (reachable_step v ns n)
    then show ?case by (auto simp: lk split: if_splits)
  qed
  then have h2: "reachable example_graph 0 \<subseteq> fmdom' example_graph"
    unfolding keys by blast
  have h3: "dfs_recursive 1000 example_graph 0 \<noteq> Inl RecursionError"
    using h1 dfs_iterative_matches_recursive [of 1000 example_graph 0] by blast
  have v: "dfs_iterative example_graph 0 = Inr [0, 1, 3, 4, 2, 5, 6]"
    by (simp add: dfs_iterative_def lk)
  show ?thesis
    using h1 h2 h3 v dfs_iterative_matches_recursive [of 1000 example_graph 0] by simp
qed

subsection \<open>A path longer than the recursion limit\<close>

lemma map_of_indexed:
  "inj f \<Longrightarrow> i \<in> set xs \<Longrightarrow> map_of (map (\<lambda>i. (f i, g i)) xs) (f i) = Some (g i)"
  by (induction xs) (auto simp: inj_eq)

lemma path_graph_lookup:
  assumes "i < n"
  shows "fmlookup (path_graph n) (int i) = Some (if Suc i < n then [int (Suc i)] else [])"
proof -
  have "inj int" by (simp add: inj_on_def)
  moreover have "i \<in> set [0 ..< n]" using assms by simp
  ultimately show ?thesis
    unfolding path_graph_def fmlookup_of_list by (rule map_of_indexed)
qed

lemma path_graph_edge:
  assumes "fmlookup (path_graph n) v = Some ns" "x \<in> set ns"
  shows "\<exists>i < n. x = int i"
proof -
  have "(v, ns) \<in> set (map (\<lambda>i. (int i, if Suc i < n then [int (Suc i)] else [])) [0 ..< n])"
    using assms(1) unfolding path_graph_def fmlookup_of_list by (rule map_of_SomeD)
  then obtain i where "i < n" "ns = (if Suc i < n then [int (Suc i)] else [])" by auto
  with assms(2) show ?thesis by (auto split: if_splits)
qed

lemma path_graph_closed:
  assumes "0 < n"
  shows "reachable (path_graph n) 0 \<subseteq> fmdom' (path_graph n)"
proof
  fix x assume "x \<in> reachable (path_graph n) 0"
  then have "\<exists>i < n. x = int i"
  proof (induction rule: reachable.induct)
    case reachable_start
    show ?case using assms by (intro exI[of _ 0]) simp
  next
    case (reachable_step v ns x)
    then show ?case using path_graph_edge by blast
  qed
  then obtain i where "i < n" "x = int i" by blast
  then show "x \<in> fmdom' (path_graph n)"
    using path_graph_lookup[of i n] by (simp add: fmdom'I)
qed

lemma path_graph_overflow:
  "i + frames < n \<Longrightarrow> \<forall>v \<in> visited. v < int i \<Longrightarrow>
     dfs_recursive_from frames (path_graph n) (int i) visited = Inl RecursionError"
proof (induction frames arbitrary: i visited)
  case 0
  show ?case by simp
next
  case (Suc frames)
  have lk: "fmlookup (path_graph n) (int i) = Some [int (Suc i)]"
    using Suc.prems(1) path_graph_lookup[of i n] by simp
  have nv: "int (Suc i) \<notin> insert (int i) visited"
    using Suc.prems(2) by auto
  have "dfs_recursive_from frames (path_graph n) (int (Suc i)) (insert (int i) visited) =
      Inl RecursionError"
    using Suc.prems by (intro Suc.IH) auto
  then show ?case using lk nv by simp
qed

lemma path_graph_keys: "card (fmdom' (path_graph n)) \<le> n"
proof -
  let ?xs = "map (\<lambda>i. (int i, if Suc i < n then [int (Suc i)] else [])) [0 ..< n]"
  have "fmdom' (path_graph n) \<subseteq> fst ` set ?xs"
  proof
    fix x assume "x \<in> fmdom' (path_graph n)"
    then obtain v where "fmlookup (path_graph n) x = Some v"
      by (auto simp: fmlookup_dom'_iff)
    then have "(x, v) \<in> set ?xs"
      unfolding path_graph_def by (rule fmap_of_list_SomeD)
    then show "x \<in> fst ` set ?xs" by (rule image_eqI[rotated]) simp
  qed
  then have "card (fmdom' (path_graph n)) \<le> card (fst ` set ?xs)"
    by (intro card_mono) simp_all
  also have "\<dots> \<le> card (set ?xs)" by (intro card_image_le) simp
  also have "\<dots> \<le> length ?xs" by (rule card_length)
  finally show ?thesis by simp
qed

text \<open>
  The path of 3001 vertices, every one of them a key, with the recursion limit at its
  default of 1000 and all of it left to the call: \<open>dfs_recursive\<close> raises
  RecursionError, and \<open>dfs_iterative\<close> returns a vertex sequence.
\<close>

theorem dfs_recursion_limit_counterexample:
  "reachable (path_graph 3001) 0 \<subseteq> fmdom' (path_graph 3001) \<and>
   dfs_recursive 1000 (path_graph 3001) 0 = Inl RecursionError \<and>
   (\<exists>order. dfs_iterative (path_graph 3001) 0 = Inr order) \<and>
   dfs_iterative (path_graph 3001) 0 \<noteq> dfs_recursive 1000 (path_graph 3001) 0"
proof -
  have 1: "reachable (path_graph 3001) 0 \<subseteq> fmdom' (path_graph 3001)"
    by (rule path_graph_closed) simp
  have "dfs_recursive_from 1000 (path_graph 3001) (int 0) {} = Inl RecursionError"
    by (rule path_graph_overflow) simp_all
  then have 2: "dfs_recursive 1000 (path_graph 3001) 0 = Inl RecursionError"
    by (simp add: dfs_recursive_def)
  have "card (fmdom' (path_graph 3001)) < 3002"
    using path_graph_keys[of 3001] by simp
  then have 3: "\<exists>order. dfs_iterative (path_graph 3001) 0 = Inr order"
    using 1 dfs_both_return[of "path_graph 3001" 3002 0] by blast
  from 1 2 3 show ?thesis by auto
qed

end
